theory Spec2Isabelle
  imports Main "HOL-Library.AList" "HOL-Library.Sublist"
begin

section \<open>The AniList SVG splicer (scripts/anilist.py)\<close>

text \<open>
  The script reads two SVG documents with \<^verbatim>\<open>xml.etree.ElementTree\<close>, pulls base64
  \<^verbatim>\<open>data:image/*\<close> URIs out of the source document, selects a \<^verbatim>\<open>foreignObject\<close> of the
  target document and appends a fixed XHTML fragment with one \<^verbatim>\<open>img\<close> per URI to it.

  Strings are lists of characters; one \<^typ>\<open>char\<close> stands for one Python character, so
  the model covers the code points below 256. File access (\<^verbatim>\<open>parse_svg\<close>, the final
  \<^verbatim>\<open>write\<close>) lies outside the model, which starts from the parsed roots and ends with the
  tree that is handed to the serialiser.
\<close>

subsection \<open>Elements\<close>

text \<open>
  An \<^verbatim>\<open>ET.Element\<close>: tag, attribute dictionary (insertion ordered, hence an association
  list), text, tail and the list of children.
\<close>

datatype element =
  Element (tag: string) (attrib: "(string \<times> string) list")
    (etext: "string option") (etail: "string option") (children: "element list")

text \<open>\<^verbatim>\<open>Element.get(key)\<close>, \<^verbatim>\<open>Element.set(key, value)\<close> and \<^verbatim>\<open>Element.append(child)\<close>.\<close>

definition get :: "element \<Rightarrow> string \<Rightarrow> string option" where
  "get e key = map_of (attrib e) key"

definition set_attr :: "string \<Rightarrow> string \<Rightarrow> element \<Rightarrow> element" where
  "set_attr key v e =
     Element (tag e) (AList.update key v (attrib e)) (etext e) (etail e) (children e)"

definition append_child :: "element \<Rightarrow> element \<Rightarrow> element" where
  "append_child child e = Element (tag e) (attrib e) (etext e) (etail e) (children e @ [child])"

definition set_children :: "element list \<Rightarrow> element \<Rightarrow> element" where
  "set_children cs e = Element (tag e) (attrib e) (etext e) (etail e) cs"

text \<open>
  An element object of a tree is identified by its position: the list of child indices
  that leads to it from the root. A node is a position together with the element there.
\<close>

type_synonym path = "nat list"
type_synonym node = "path \<times> element"

fun at :: "element \<Rightarrow> path \<Rightarrow> element option" where
  "at e [] = Some e"
| "at e (i # p) = (if i < length (children e) then at (children e ! i) p else None)"

fun update_at :: "path \<Rightarrow> (element \<Rightarrow> element) \<Rightarrow> element \<Rightarrow> element" where
  "update_at [] f e = f e"
| "update_at (i # p) f e =
     (if i < length (children e)
      then set_children ((children e)[i := update_at p f (children e ! i)]) e
      else e)"

text \<open>
  \<^verbatim>\<open>Element.iter()\<close>: the element itself, then the subtrees of its children from left to
  right (document order), each node with its position below the start element.
\<close>

fun iter :: "element \<Rightarrow> node list" where
  "iter (Element t a x y cs) =
     ([], Element t a x y cs) #
     concat (map (\<lambda>(i, ns). map (\<lambda>(p, d). (i # p, d)) ns) (enumerate 0 (map iter cs)))"

text \<open>Document order on positions: an ancestor comes before its descendants, an earlier
  sibling's subtree before a later sibling's.\<close>

fun doc_before :: "path \<Rightarrow> path \<Rightarrow> bool" where
  "doc_before [] [] = False"
| "doc_before [] (j # q) = True"
| "doc_before (i # p) [] = False"
| "doc_before (i # p) (j # q) = (i < j \<or> (i = j \<and> doc_before p q))"

subsection \<open>Namespaces and tags\<close>

definition Namespace_SVG :: string where
  "Namespace_SVG = ''http://www.w3.org/2000/svg''"

definition Namespace_XHTML :: string where
  "Namespace_XHTML = ''http://www.w3.org/1999/xhtml''"

definition Namespace_XLINK :: string where
  "Namespace_XLINK = ''http://www.w3.org/1999/xlink''"

definition qname :: "string \<Rightarrow> string \<Rightarrow> string" where
  "qname ns local = ''{'' @ ns @ ''}'' @ local"

definition Tag_DIV :: string where
  "Tag_DIV = qname Namespace_XHTML ''div''"

definition Tag_IMG :: string where
  "Tag_IMG = qname Namespace_XHTML ''img''"

definition Tag_SECTION :: string where
  "Tag_SECTION = qname Namespace_XHTML ''section''"

definition Tag_IMAGE :: string where
  "Tag_IMAGE = qname Namespace_SVG ''image''"

text \<open>The tags that the path expressions \<^verbatim>\<open>svg:foreignObject\<close> and \<^verbatim>\<open>xlink:href\<close>
  resolve to through \<^verbatim>\<open>NSMAP\<close>.\<close>

definition Tag_FOREIGN_OBJECT :: string where
  "Tag_FOREIGN_OBJECT = qname Namespace_SVG ''foreignObject''"

definition Attr_XLINK_HREF :: string where
  "Attr_XLINK_HREF = qname Namespace_XLINK ''href''"

subsection \<open>Building the fragment\<close>

text \<open>Python's \<^verbatim>\<open>str\<close> on an integer: decimal digits, a minus sign for negatives.\<close>

fun str_nat :: "nat \<Rightarrow> string" where
  "str_nat n =
     (if n < 10 then [char_of (48 + n)] else str_nat (n div 10) @ [char_of (48 + n mod 10)])"

declare str_nat.simps [simp del]

definition str_int :: "int \<Rightarrow> string" where
  "str_int i = (if i < 0 then CHR ''-'' # str_nat (nat (- i)) else str_nat (nat i))"

definition img_element :: "int \<Rightarrow> int \<Rightarrow> string \<Rightarrow> element" where
  "img_element width height uri =
     Element Tag_IMG
       [(''src'', uri), (''width'', str_int width), (''height'', str_int height),
        (''alt'', ''character'')]
       None None []"

definition build_anilist_section :: "string list \<Rightarrow> int \<Rightarrow> int \<Rightarrow> element list" where
  "build_anilist_section images width height =
     (let metrics = Element Tag_DIV [(''id'', ''metrics-end'')] None None [];
          characters = Element Tag_DIV [(''class'', ''characters'')] None None
                         (map (img_element width height) images);
          anilist = Element Tag_DIV [(''class'', ''anilist'')] None None [characters];
          inner_section = Element Tag_SECTION [] None None [anilist];
          row = Element Tag_DIV [(''class'', ''row fill-width'')] None None [inner_section];
          outer_section = Element Tag_SECTION [] None None [row];
          items = Element Tag_DIV [(''class'', ''items-wrapper'')] None None [outer_section]
      in [items, metrics])"

subsection \<open>Path queries\<close>

text \<open>
  \<^verbatim>\<open>root.findall(path, NSMAP)\<close> runs the selectors of the path from left to right over a
  list of elements that starts as \<^verbatim>\<open>[root]\<close>. The three kinds of selector the script's
  paths use are \<^verbatim>\<open>//tag\<close> (every element of the subtree with that tag, the start element
  excepted), \<^verbatim>\<open>/tag\<close> (every child with that tag) and \<^verbatim>\<open>[@key='value']\<close>. Each selector
  visits the elements of its input list in turn and yields what it finds for each, so a
  result is neither sorted nor freed of duplicates.
\<close>

definition select_descendant :: "string \<Rightarrow> node list \<Rightarrow> node list" where
  "select_descendant t result =
     concat (map (\<lambda>(p, elem). [(p @ q, e). (q, e) \<leftarrow> iter elem, tag e = t, q \<noteq> []]) result)"

definition select_child :: "string \<Rightarrow> node list \<Rightarrow> node list" where
  "select_child t result =
     concat (map (\<lambda>(p, elem). [(p @ [i], e). (i, e) \<leftarrow> enumerate 0 (children elem), tag e = t])
       result)"

definition select_attr :: "string \<Rightarrow> string \<Rightarrow> node list \<Rightarrow> node list" where
  "select_attr key v result = filter (\<lambda>(p, elem). get elem key = Some v) result"

text \<open>\<^verbatim>\<open>.//xhtml:div[@class='anilist']/xhtml:div[@class='characters']/xhtml:img\<close>\<close>

definition findall_strict :: "element \<Rightarrow> node list" where
  "findall_strict root =
     select_child Tag_IMG
       (select_attr ''class'' ''characters''
         (select_child Tag_DIV
           (select_attr ''class'' ''anilist''
             (select_descendant Tag_DIV [([], root)]))))"

text \<open>\<^verbatim>\<open>.//xhtml:div[@class='anilist']//xhtml:img\<close>\<close>

definition findall_relaxed :: "element \<Rightarrow> node list" where
  "findall_relaxed root =
     select_descendant Tag_IMG
       (select_attr ''class'' ''anilist'' (select_descendant Tag_DIV [([], root)]))"

text \<open>\<^verbatim>\<open>.//svg:image\<close> and \<^verbatim>\<open>.//svg:foreignObject\<close>\<close>

definition findall_svg_image :: "element \<Rightarrow> node list" where
  "findall_svg_image root = select_descendant Tag_IMAGE [([], root)]"

definition findall_foreign_object :: "element \<Rightarrow> node list" where
  "findall_foreign_object root = select_descendant Tag_FOREIGN_OBJECT [([], root)]"

text \<open>\<^verbatim>\<open>element.find(".//xhtml:div[@class='anilist']", NSMAP) is not None\<close>\<close>

definition has_anilist :: "element \<Rightarrow> bool" where
  "has_anilist element =
     (select_attr ''class'' ''anilist'' (select_descendant Tag_DIV [([], element)]) \<noteq> [])"

subsection \<open>The data URI test\<close>

text \<open>
  Regular expressions with Brzozowski derivatives; \<open>matches r s\<close> holds when the whole of
  \<open>s\<close> is a word of \<open>r\<close>.
\<close>

datatype rexp =
  Zero | One | Class "char \<Rightarrow> bool" | Alt rexp rexp | Seq rexp rexp | Star rexp

fun nullable :: "rexp \<Rightarrow> bool" where
  "nullable Zero = False"
| "nullable One = True"
| "nullable (Class P) = False"
| "nullable (Alt r s) = (nullable r \<or> nullable s)"
| "nullable (Seq r s) = (nullable r \<and> nullable s)"
| "nullable (Star r) = True"

fun deriv :: "char \<Rightarrow> rexp \<Rightarrow> rexp" where
  "deriv c Zero = Zero"
| "deriv c One = Zero"
| "deriv c (Class P) = (if P c then One else Zero)"
| "deriv c (Alt r s) = Alt (deriv c r) (deriv c s)"
| "deriv c (Seq r s) =
     (if nullable r then Alt (Seq (deriv c r) s) (deriv c s) else Seq (deriv c r) s)"
| "deriv c (Star r) = Seq (deriv c r) (Star r)"

fun matches :: "rexp \<Rightarrow> string \<Rightarrow> bool" where
  "matches r [] = nullable r"
| "matches r (c # cs) = matches (deriv c r) cs"

fun Lit :: "string \<Rightarrow> rexp" where
  "Lit [] = One"
| "Lit (c # cs) = Seq (Class (\<lambda>x. x = c)) (Lit cs)"

definition Plus :: "rexp \<Rightarrow> rexp" where
  "Plus r = Seq r (Star r)"

text \<open>
  \<^verbatim>\<open>str.isspace\<close> and the class \<^verbatim>\<open>\s\<close> of a \<^verbatim>\<open>str\<close> pattern agree; below 256 they hold of
  the code points 9 to 13, 28 to 32, 133 and 160.
\<close>

definition isspace :: "char \<Rightarrow> bool" where
  "isspace c =
     (let n = (of_char c :: nat) in (9 \<le> n \<and> n \<le> 13) \<or> (28 \<le> n \<and> n \<le> 32) \<or> n = 133 \<or> n = 160)"

definition strip :: "string \<Rightarrow> string" where
  "strip s = rev (dropWhile isspace (rev (dropWhile isspace s)))"

text \<open>The class \<^verbatim>\<open>[A-Za-z0-9+/=\s]\<close>.\<close>

definition base64_class :: "char \<Rightarrow> bool" where
  "base64_class c =
     (let n = (of_char c :: nat) in
        (65 \<le> n \<and> n \<le> 90) \<or> (97 \<le> n \<and> n \<le> 122) \<or> (48 \<le> n \<and> n \<le> 57) \<or>
        c = CHR ''+'' \<or> c = CHR ''/'' \<or> c = CHR ''='' \<or> isspace c)"

text \<open>\<^verbatim>\<open>data:image/[^;]+;base64,[A-Za-z0-9+/=\s]+\<close>, the pattern between its anchors.\<close>

definition data_uri_pattern :: rexp where
  "data_uri_pattern =
     Seq (Lit ''data:image/'')
       (Seq (Plus (Class (\<lambda>c. c \<noteq> CHR '';'')))
         (Seq (Lit '';base64,'') (Plus (Class base64_class))))"

text \<open>
  \<^verbatim>\<open>pattern.match\<close> with \<^verbatim>\<open>^\<close> and \<^verbatim>\<open>$\<close>: the match starts at the first character, and
  \<^verbatim>\<open>$\<close> accepts the end of the string or the position before a final newline.
\<close>

definition match_anchored :: "rexp \<Rightarrow> string \<Rightarrow> bool" where
  "match_anchored r s =
     (matches r s \<or> (s \<noteq> [] \<and> last s = char_of (10 :: nat) \<and> matches r (butlast s)))"

definition is_data_uri :: "string option \<Rightarrow> bool" where
  "is_data_uri uri =
     (case uri of
        None \<Rightarrow> False
      | Some u \<Rightarrow> u \<noteq> [] \<and> match_anchored data_uri_pattern (strip u))"

subsection \<open>Extraction\<close>

datatype error = No_foreignObject | No_data_URIs

text \<open>A warning carries the part of the message that varies: the cut value.\<close>

datatype warning = Non_data_URI_ignored string | Non_data_URI_in_image_ignored string

text \<open>\<^verbatim>\<open>max_images and len(data_uris) >= max_images\<close>\<close>

definition cap_reached :: "int option \<Rightarrow> string list \<Rightarrow> bool" where
  "cap_reached max_images data_uris =
     (case max_images of
        None \<Rightarrow> False
      | Some k \<Rightarrow> k \<noteq> 0 \<and> int (length data_uris) \<ge> k)"

text \<open>
  The body of both \<^verbatim>\<open>for element in ...\<close> loops; they differ in how the value is read
  and in the warning's wording. The state is \<^verbatim>\<open>data_uris\<close> and the warnings printed so
  far; the flag tells whether the loop was left through its cap test (\<^verbatim>\<open>return\<close> in the
  first loop, \<^verbatim>\<open>break\<close> in the second).
\<close>

fun scan_loop ::
  "(element \<Rightarrow> string option) \<Rightarrow> (string \<Rightarrow> warning) \<Rightarrow> int option \<Rightarrow> element list \<Rightarrow>
     string list \<times> warning list \<Rightarrow> bool \<times> string list \<times> warning list" where
  "scan_loop rd wk max_images [] (data_uris, warns) = (False, data_uris, warns)"
| "scan_loop rd wk max_images (element # rest) (data_uris, warns) =
     (let uri = rd element;
          (data_uris, warns) =
            (case uri of
               None \<Rightarrow> (data_uris, warns)
             | Some u \<Rightarrow>
                 if is_data_uri uri then (data_uris @ [strip u], warns)
                 else if u \<noteq> [] then (data_uris, warns @ [wk (take 60 u)])
                 else (data_uris, warns))
      in if cap_reached max_images data_uris then (True, data_uris, warns)
         else scan_loop rd wk max_images rest (data_uris, warns))"

text \<open>\<^verbatim>\<open>element.get("src")\<close> and
  \<^verbatim>\<open>element.get("{xlink}href") or element.get("href")\<close>\<close>

definition src_of :: "element \<Rightarrow> string option" where
  "src_of element = get element ''src''"

definition href_of :: "element \<Rightarrow> string option" where
  "href_of element =
     (case get element Attr_XLINK_HREF of
        None \<Rightarrow> get element ''href''
      | Some v \<Rightarrow> if v \<noteq> [] then Some v else get element ''href'')"

text \<open>
  \<^verbatim>\<open>extract_uris_data\<close> after its queries: \<open>strict\<close>, \<open>relaxed\<close> and \<open>svg_images\<close> are
  what the three \<^verbatim>\<open>findall\<close> calls return. The result is the returned list, or the fatal
  error, together with the warnings printed.
\<close>

definition extract_from ::
  "element list \<Rightarrow> element list \<Rightarrow> element list \<Rightarrow> int option \<Rightarrow>
     (error + string list) \<times> warning list" where
  "extract_from strict relaxed svg_images max_images =
     (let candidates = strict;
          candidates = (if candidates = [] then relaxed else candidates);
          (returned, data_uris, warns) =
            scan_loop src_of Non_data_URI_ignored max_images candidates ([], [])
      in if returned then (Inr data_uris, warns)
         else
           let (stopped, data_uris, warns) =
                 (if data_uris = []
                  then scan_loop href_of Non_data_URI_in_image_ignored max_images svg_images
                         (data_uris, warns)
                  else (False, data_uris, warns))
           in if data_uris = [] then (Inl No_data_URIs, warns) else (Inr data_uris, warns))"

definition extract_uris_data :: "element \<Rightarrow> int option \<Rightarrow> (error + string list) \<times> warning list" where
  "extract_uris_data root max_images =
     extract_from (map snd (findall_strict root)) (map snd (findall_relaxed root))
       (map snd (findall_svg_image root)) max_images"

subsection \<open>Selecting the insertion point\<close>

text \<open>
  \<^verbatim>\<open>for child in target: target.remove(child)\<close>. An element has no \<^verbatim>\<open>__iter__\<close>; the loop
  reads \<^verbatim>\<open>target[0]\<close>, \<^verbatim>\<open>target[1]\<close>, ... until the index is out of range, and each
  \<^verbatim>\<open>remove\<close> takes out the child just read (children are distinct objects, so the first
  child identical to it is the one at that index).
\<close>

function clear_loop :: "nat \<Rightarrow> element list \<Rightarrow> element list" where
  "clear_loop i cs =
     (if i < length cs then clear_loop (Suc i) (take i cs @ drop (Suc i) cs) else cs)"
  by pat_completeness auto
termination
  by (relation "measure (\<lambda>(i, cs). length cs - i)") auto

declare clear_loop.simps [simp del]

text \<open>
  \<^verbatim>\<open>find_object\<close> returns the selected element; here its position, with the target tree
  as the call leaves it.
\<close>

definition find_object :: "element \<Rightarrow> bool \<Rightarrow> error + (path \<times> element)" where
  "find_object root merge =
     (let foreign_object = findall_foreign_object root in
      if foreign_object = [] then Inl No_foreignObject
      else
        let anilist_fos = filter (\<lambda>obj. has_anilist (snd obj)) foreign_object;
            other_fos = filter (\<lambda>obj. \<not> has_anilist (snd obj)) foreign_object
        in if merge
           then Inr (fst (if anilist_fos \<noteq> [] then hd anilist_fos else hd foreign_object), root)
           else
             let target = (if other_fos \<noteq> [] then hd other_fos else hd foreign_object)
             in Inr (fst target,
                     update_at (fst target) (\<lambda>t. set_children (clear_loop 0 (children t)) t) root))"

subsection \<open>Injection\<close>

text \<open>What \<^verbatim>\<open>inject\<close> does to the selected \<^verbatim>\<open>foreignObject\<close>.\<close>

definition fill :: "element list \<Rightarrow> element \<Rightarrow> element" where
  "fill fragment fo =
     fold append_child fragment
       (set_attr ''height'' ''100%''
         (set_attr ''width'' ''100%'' (set_attr ''y'' ''0'' (set_attr ''x'' ''0'' fo))))"

text \<open>
  \<^verbatim>\<open>inject\<close> between parsing and writing: from the two roots to the target tree that is
  written, or the fatal error, with the warnings printed on the way. The \<^verbatim>\<open>[info]\<close> lines
  on standard output are left out.
\<close>

definition inject ::
  "element \<Rightarrow> element \<Rightarrow> int option \<Rightarrow> int \<Rightarrow> int \<Rightarrow> bool \<Rightarrow> (error + element) \<times> warning list" where
  "inject target_root source_root max_images width height merge =
     (case extract_uris_data source_root max_images of
        (Inl e, warns) \<Rightarrow> (Inl e, warns)
      | (Inr data_uris, warns) \<Rightarrow>
          (case find_object target_root merge of
             Inl e \<Rightarrow> (Inl e, warns)
           | Inr (fo, target_root) \<Rightarrow>
               (Inr (update_at fo (fill (build_anilist_section data_uris width height))
                       target_root),
                warns)))"

subsection \<open>Notions used to state the properties\<close>

text \<open>
  The candidates that a loop started with \<open>data_uris\<close> evaluates: all of them up to and
  including the one at which the cap test succeeds.
\<close>

fun evaluated ::
  "('a \<Rightarrow> string option) \<Rightarrow> int option \<Rightarrow> 'a list \<Rightarrow> string list \<Rightarrow> 'a list" where
  "evaluated rd max_images [] data_uris = []"
| "evaluated rd max_images (element # rest) data_uris =
     (let data_uris =
            (if is_data_uri (rd element) then data_uris @ [strip (the (rd element))]
             else data_uris)
      in element #
           (if cap_reached max_images data_uris then []
            else evaluated rd max_images rest data_uris))"

text \<open>A candidate is rejected when its value is present, not empty and not a data URI.\<close>

definition rejected :: "(element \<Rightarrow> string option) \<Rightarrow> element \<Rightarrow> bool" where
  "rejected rd element =
     (case rd element of None \<Rightarrow> False | Some u \<Rightarrow> u \<noteq> [] \<and> \<not> is_data_uri (Some u))"

text \<open>A \<^verbatim>\<open>foreignObject\<close> element below the root, and one that holds an anilist div.\<close>

definition insertion_point :: "element \<Rightarrow> path \<Rightarrow> bool" where
  "insertion_point root q =
     (q \<noteq> [] \<and> (case at root q of None \<Rightarrow> False | Some e \<Rightarrow> tag e = Tag_FOREIGN_OBJECT))"

definition marked :: "element \<Rightarrow> path \<Rightarrow> bool" where
  "marked root q =
     (q \<noteq> [] \<and>
      (case at root q of None \<Rightarrow> False | Some e \<Rightarrow> tag e = Tag_FOREIGN_OBJECT \<and> has_anilist e))"

text \<open>The nodes of a list of subtrees, the \<open>i\<close>-th subtree placed at index \<open>k + i\<close>.\<close>

definition shifted :: "nat \<Rightarrow> node list list \<Rightarrow> node list" where
  "shifted k nss = concat (map (\<lambda>(i, ns). map (\<lambda>(p, d). (i # p, d)) ns) (enumerate k nss))"

text \<open>\<open>p\<close> lies in an earlier branch than \<open>q\<close>: the positions part ways, \<open>p\<close> to the left.\<close>

fun branch_before :: "path \<Rightarrow> path \<Rightarrow> bool" where
  "branch_before (i # p) (j # q) = (i < j \<or> (i = j \<and> branch_before p q))"
| "branch_before p q = False"

text \<open>An XHTML div whose class attribute is exactly \<open>c\<close>.\<close>

definition is_div_class :: "string \<Rightarrow> element \<Rightarrow> bool" where
  "is_div_class c e = (tag e = Tag_DIV \<and> get e ''class'' = Some c)"

subsection \<open>Example documents\<close>

definition svg_root :: "element list \<Rightarrow> element" where
  "svg_root cs = Element (qname Namespace_SVG ''svg'') [] None None cs"

definition div_class :: "string \<Rightarrow> element list \<Rightarrow> element" where
  "div_class c cs = Element Tag_DIV [(''class'', c)] None None cs"

definition img_src :: "string \<Rightarrow> element" where
  "img_src u = Element Tag_IMG [(''src'', u)] None None []"

definition foreign_object :: "element list \<Rightarrow> element" where
  "foreign_object cs = Element Tag_FOREIGN_OBJECT [] None None cs"

definition svg_image :: "string \<Rightarrow> element" where
  "svg_image u = Element Tag_IMAGE [(''href'', u)] None None []"

definition uri_A :: string where
  "uri_A = ''data:image/png;base64,QQ==''"

definition uri_B :: string where
  "uri_B = ''data:image/png;base64,Qg==''"

definition uri_bad :: string where
  "uri_bad = ''http://example.org/characters/0123456789/0123456789/0123456789/portrait.png''"

definition cap_doc :: element where
  "cap_doc =
     svg_root [div_class ''anilist''
       [div_class ''characters'' [img_src uri_A, img_src uri_bad, img_src uri_B]]]"

definition two_children_doc :: element where
  "two_children_doc =
     svg_root [foreign_object [div_class ''first'' [], div_class ''second'' []]]"

definition nested_doc :: element where
  "nested_doc =
     svg_root [div_class ''anilist''
       [div_class ''anilist'' [div_class ''characters'' [img_src uri_B]],
        div_class ''characters'' [img_src uri_A]]]"

definition merge_doc :: element where
  "merge_doc =
     svg_root [foreign_object [div_class ''first'' []],
               foreign_object [div_class ''anilist'' []],
               foreign_object [div_class ''anilist'' []]]"

definition root_fo_doc :: element where
  "root_fo_doc = foreign_object [div_class ''anilist'' []]"

definition multi_class_doc :: element where
  "multi_class_doc =
     svg_root [foreign_object
       [div_class ''anilist card'' [div_class ''characters'' [img_src uri_A]],
        Element Tag_SECTION [(''class'', ''anilist'')] None None
          [div_class ''characters'' [img_src uri_B]]]]"

definition deep_doc :: element where
  "deep_doc =
     svg_root [div_class ''anilist''
       [Element Tag_SECTION [] None None [div_class ''characters'' [img_src uri_A]]]]"

definition injected_doc :: element where
  "injected_doc =
     svg_root [Element Tag_FOREIGN_OBJECT
                 [(''x'', ''0''), (''y'', ''0''), (''width'', ''100%''), (''height'', ''100%'')]
                 None None (build_anilist_section [uri_A, uri_B] 36 54),
               foreign_object [div_class ''anilist'' []],
               foreign_object [div_class ''anilist'' []]]"

section \<open>Properties\<close>

subsection \<open>Tags and traversal\<close>

lemma tag_neq [simp]:
  "Tag_DIV \<noteq> Tag_IMG" "Tag_SECTION \<noteq> Tag_IMG" "Tag_IMG \<noteq> Tag_DIV" "Tag_IMG \<noteq> Tag_SECTION"
  by (simp_all add: Tag_DIV_def Tag_IMG_def Tag_SECTION_def qname_def)

lemma snd_shifted:
  "map snd (concat (map (\<lambda>(i, ns). map (\<lambda>(p, d). (i # p, d)) ns) (enumerate k nss)))
   = concat (map (map snd) nss)"
  by (induction nss arbitrary: k) (simp_all add: comp_def case_prod_beta)

lemma elements_iter:
  "map snd (iter (Element t a x y cs)) =
     Element t a x y cs # concat (map (\<lambda>c. map snd (iter c)) cs)"
  by (simp add: snd_shifted comp_def)

subsection \<open>The fragment\<close>

lemma elements_img_element: "map snd (iter (img_element w h u)) = [img_element w h u]"
  by (simp add: img_element_def)

lemma tag_img_element [simp]: "tag (img_element w h u) = Tag_IMG"
  by (simp add: img_element_def)

lemma imgs_of_leaves:
  "filter (\<lambda>e. tag e = Tag_IMG) (concat (map (\<lambda>u. map snd (iter (img_element w h u))) images))
   = map (img_element w h) images"
  by (induction images) (simp_all add: elements_img_element)

lemma img_element_attrs:
  "get (img_element width height uri) ''src'' = Some uri"
  "get (img_element width height uri) ''width'' = Some (str_int width)"
  "get (img_element width height uri) ''height'' = Some (str_int height)"
  "get (img_element width height uri) ''alt'' = Some ''character''"
  by (simp_all add: img_element_def get_def)

text \<open>
  Claim C9. The two elements that \<^verbatim>\<open>build_anilist_section\<close> returns hold, in document
  order, exactly one \<^verbatim>\<open>img\<close> element per input URI and no other \<^verbatim>\<open>img\<close>; the element made
  for a URI carries that URI as \<^verbatim>\<open>src\<close>, the stringified width and height, and
  \<^verbatim>\<open>alt="character"\<close>. Hence there are as many \<^verbatim>\<open>img\<close> elements as URIs.
\<close>

theorem build_anilist_section_imgs:
  "filter (\<lambda>e. tag e = Tag_IMG)
     (concat (map (\<lambda>c. map snd (iter c)) (build_anilist_section images width height)))
   = map (img_element width height) images
   \<and> length (filter (\<lambda>e. tag e = Tag_IMG)
       (concat (map (\<lambda>c. map snd (iter c)) (build_anilist_section images width height))))
     = length images
   \<and> (\<forall>uri. get (img_element width height uri) ''src'' = Some uri
          \<and> get (img_element width height uri) ''width'' = Some (str_int width)
          \<and> get (img_element width height uri) ''height'' = Some (str_int height)
          \<and> get (img_element width height uri) ''alt'' = Some ''character'')"
proof -
  have "filter (\<lambda>e. tag e = Tag_IMG)
          (concat (map (\<lambda>c. map snd (iter c)) (build_anilist_section images width height)))
        = filter (\<lambda>e. tag e = Tag_IMG)
            (concat (map (\<lambda>u. map snd (iter (img_element width height u))) images))"
    by (simp add: build_anilist_section_def elements_iter comp_def del: iter.simps)
  then have "filter (\<lambda>e. tag e = Tag_IMG)
          (concat (map (\<lambda>c. map snd (iter c)) (build_anilist_section images width height)))
        = map (img_element width height) images"
    by (simp add: imgs_of_leaves)
  then show ?thesis
    by (simp add: img_element_attrs)
qed

lemma str_int_36: "str_int 36 = ''36''" and str_int_54: "str_int 54 = ''54''"
  by code_simp+

theorem build_anilist_section_imgs_witness:
  "filter (\<lambda>e. tag e = Tag_IMG)
     (concat (map (\<lambda>c. map snd (iter c)) (build_anilist_section [''u1'', ''u2''] 36 54)))
   = [Element Tag_IMG
        [(''src'', ''u1''), (''width'', ''36''), (''height'', ''54''), (''alt'', ''character'')]
        None None [],
      Element Tag_IMG
        [(''src'', ''u2''), (''width'', ''36''), (''height'', ''54''), (''alt'', ''character'')]
        None None []]"
  using build_anilist_section_imgs [of "[''u1'', ''u2'']" 36 54]
  by (simp add: img_element_def str_int_36 str_int_54)

subsection \<open>The scanning loop\<close>

lemma is_data_uri_None [simp]: "\<not> is_data_uri None"
  by (simp add: is_data_uri_def)

lemma scan_loop_Cons:
  "scan_loop rd wk m (e # es) (us0, ws0) =
     (let us1 = us0 @ (if is_data_uri (rd e) then [strip (the (rd e))] else []);
          ws1 = ws0 @ (if rejected rd e then [wk (take 60 (the (rd e)))] else [])
      in if cap_reached m us1 then (True, us1, ws1) else scan_loop rd wk m es (us1, ws1))"
  by (cases "rd e") (auto simp: rejected_def Let_def is_data_uri_def)

lemma evaluated_Cons:
  "evaluated rd m (e # es) us0 =
     (let us1 = us0 @ (if is_data_uri (rd e) then [strip (the (rd e))] else [])
      in e # (if cap_reached m us1 then [] else evaluated rd m es us1))"
  by (simp add: Let_def)

lemma rejected_not_data_uri: "rejected rd e \<Longrightarrow> \<not> is_data_uri (rd e)"
  by (auto simp: rejected_def split: option.splits)

lemma scan_loop_evaluated:
  "scan_loop rd wk m es (us0, ws0) = (stopped, us, ws) \<Longrightarrow>
     us = us0 @ map (\<lambda>e. strip (the (rd e))) (filter (\<lambda>e. is_data_uri (rd e)) (evaluated rd m es us0))
   \<and> ws = ws0 @ map (\<lambda>e. wk (take 60 (the (rd e)))) (filter (rejected rd) (evaluated rd m es us0))"
proof (induction es arbitrary: us0 ws0)
  case Nil
  then show ?case by simp
next
  case (Cons e es)
  define us1 where "us1 = us0 @ (if is_data_uri (rd e) then [strip (the (rd e))] else [])"
  define ws1 where "ws1 = ws0 @ (if rejected rd e then [wk (take 60 (the (rd e)))] else [])"
  have ev: "evaluated rd m (e # es) us0 = e # (if cap_reached m us1 then [] else evaluated rd m es us1)"
    by (simp add: evaluated_Cons us1_def Let_def del: evaluated.simps)
  show ?case
  proof (cases "cap_reached m us1")
    case True
    with Cons.prems have "us = us1" "ws = ws1"
      by (simp_all add: scan_loop_Cons us1_def ws1_def Let_def del: scan_loop.simps)
    with True ev show ?thesis
      by (simp add: us1_def ws1_def del: evaluated.simps)
  next
    case False
    with Cons.prems have "scan_loop rd wk m es (us1, ws1) = (stopped, us, ws)"
      by (simp add: scan_loop_Cons us1_def ws1_def Let_def del: scan_loop.simps)
    from Cons.IH [OF this] False ev show ?thesis
      by (simp add: us1_def ws1_def del: evaluated.simps)
  qed
qed

lemma scan_loop_stopped:
  "scan_loop rd wk m es (us0, ws0) = (stopped, us, ws) \<Longrightarrow>
     (stopped \<longrightarrow> cap_reached m us) \<and> (\<not> stopped \<longrightarrow> evaluated rd m es us0 = es)"
proof (induction es arbitrary: us0 ws0)
  case Nil
  then show ?case by simp
next
  case (Cons e es)
  define us1 where "us1 = us0 @ (if is_data_uri (rd e) then [strip (the (rd e))] else [])"
  define ws1 where "ws1 = ws0 @ (if rejected rd e then [wk (take 60 (the (rd e)))] else [])"
  have ev: "evaluated rd m (e # es) us0 = e # (if cap_reached m us1 then [] else evaluated rd m es us1)"
    by (simp add: evaluated_Cons us1_def Let_def del: evaluated.simps)
  show ?case
  proof (cases "cap_reached m us1")
    case True
    with Cons.prems have "us = us1" "stopped"
      by (simp_all add: scan_loop_Cons us1_def ws1_def Let_def del: scan_loop.simps)
    with True show ?thesis by simp
  next
    case False
    with Cons.prems have "scan_loop rd wk m es (us1, ws1) = (stopped, us, ws)"
      by (simp add: scan_loop_Cons us1_def ws1_def Let_def del: scan_loop.simps)
    from Cons.IH [OF this] False ev show ?thesis
      by (simp del: evaluated.simps)
  qed
qed

lemma scan_loop_length:
  "scan_loop rd wk (Some k) es (us0, ws0) = (stopped, us, ws) \<Longrightarrow> 0 < k \<Longrightarrow>
     int (length us0) < k \<Longrightarrow> int (length us) \<le> k"
proof (induction es arbitrary: us0 ws0)
  case Nil
  then show ?case by simp
next
  case (Cons e es)
  define us1 where "us1 = us0 @ (if is_data_uri (rd e) then [strip (the (rd e))] else [])"
  define ws1 where "ws1 = ws0 @ (if rejected rd e then [wk (take 60 (the (rd e)))] else [])"
  have len: "int (length us1) \<le> k" using Cons.prems(3) by (simp add: us1_def)
  show ?case
  proof (cases "cap_reached (Some k) us1")
    case True
    with Cons.prems have "us = us1"
      by (simp_all add: scan_loop_Cons us1_def ws1_def Let_def del: scan_loop.simps)
    with len show ?thesis by simp
  next
    case False
    with Cons.prems have "scan_loop rd wk (Some k) es (us1, ws1) = (stopped, us, ws)"
      by (simp add: scan_loop_Cons us1_def ws1_def Let_def del: scan_loop.simps)
    moreover from False Cons.prems(2) have "int (length us1) < k"
      by (simp add: cap_reached_def)
    ultimately show ?thesis using Cons.IH Cons.prems(2) by blast
  qed
qed

lemma scan_loop_prefix:
  "k \<le> int (length us0) + int (length (filter (\<lambda>e. is_data_uri (rd e)) pre)) \<Longrightarrow> 0 < k \<Longrightarrow>
   int (length us0) < k \<Longrightarrow>
   scan_loop rd wk (Some k) (pre @ post) (us0, ws0) = scan_loop rd wk (Some k) pre (us0, ws0)
   \<and> fst (scan_loop rd wk (Some k) pre (us0, ws0))"
proof (induction pre arbitrary: us0 ws0)
  case Nil
  then show ?case by simp
next
  case (Cons e es)
  define us1 where "us1 = us0 @ (if is_data_uri (rd e) then [strip (the (rd e))] else [])"
  define ws1 where "ws1 = ws0 @ (if rejected rd e then [wk (take 60 (the (rd e)))] else [])"
  show ?case
  proof (cases "cap_reached (Some k) us1")
    case True
    then show ?thesis
      by (simp add: scan_loop_Cons us1_def ws1_def Let_def del: scan_loop.simps)
  next
    case False
    then have lt: "int (length us1) < k" using Cons.prems(2) by (simp add: cap_reached_def)
    have "k \<le> int (length us1) + int (length (filter (\<lambda>e. is_data_uri (rd e)) es))"
      using Cons.prems(1) by (simp add: us1_def split: if_splits)
    from Cons.IH [OF this Cons.prems(2) lt, of ws1] False show ?thesis
      by (simp add: scan_loop_Cons us1_def ws1_def Let_def del: scan_loop.simps)
  qed
qed

subsection \<open>Stripping and the data URI test\<close>

lemma dropWhile_rev_dropWhile:
  assumes "dropWhile P d = d"
  shows "dropWhile P (rev (dropWhile P (rev d))) = rev (dropWhile P (rev d))"
proof (cases d)
  case Nil
  then show ?thesis by simp
next
  case (Cons x d')
  from assms Cons have "\<not> P (hd d)"
    using hd_dropWhile [of P d] by simp
  with Cons have nx: "\<not> P x" by simp
  have "rev (dropWhile P (rev d)) = x # rev (dropWhile P (rev d')) \<or> rev (dropWhile P (rev d)) = [x]"
    using Cons nx by (simp add: dropWhile_append)
  with nx show ?thesis by auto
qed

lemma strip_strip: "strip (strip s) = strip s"
proof -
  have "dropWhile isspace (dropWhile isspace s) = dropWhile isspace s"
    by simp
  then have "dropWhile isspace (strip s) = strip s"
    unfolding strip_def by (rule dropWhile_rev_dropWhile)
  then show ?thesis
    by (simp add: strip_def)
qed

lemma matches_pattern_nonempty: "match_anchored data_uri_pattern s \<Longrightarrow> s \<noteq> []"
  by (auto simp: match_anchored_def data_uri_pattern_def)

lemma is_data_uri_strip: "is_data_uri (Some u) \<Longrightarrow> is_data_uri (Some (strip u))"
  by (auto simp: is_data_uri_def strip_strip dest: matches_pattern_nonempty)

subsection \<open>The cap\<close>

lemma extract_from_scan:
  "extract_from strict relaxed svg m =
     (let s = scan_loop src_of Non_data_URI_ignored m (if strict = [] then relaxed else strict) ([], [])
      in if fst s then (Inr (fst (snd s)), snd (snd s))
         else if fst (snd s) \<noteq> [] then (Inr (fst (snd s)), snd (snd s))
         else let t = scan_loop href_of Non_data_URI_in_image_ignored m svg ([], snd (snd s))
              in if fst (snd t) = [] then (Inl No_data_URIs, snd (snd t))
                 else (Inr (fst (snd t)), snd (snd t)))"
  by (simp add: extract_from_def Let_def case_prod_beta)

lemma extract_from_length:
  assumes "0 < k" and "fst (extract_from strict relaxed svg (Some k)) = Inr us"
  shows "int (length us) \<le> k"
proof -
  obtain b1 us1 ws1 where s: "scan_loop src_of Non_data_URI_ignored (Some k)
      (if strict = [] then relaxed else strict) ([], []) = (b1, us1, ws1)"
    by (metis prod_cases3)
  obtain b2 us2 ws2 where t: "scan_loop href_of Non_data_URI_in_image_ignored (Some k) svg ([], ws1)
      = (b2, us2, ws2)"
    by (metis prod_cases3)
  have l1: "int (length us1) \<le> k"
    using scan_loop_length [OF s assms(1)] assms(1) by simp
  have l2: "int (length us2) \<le> k"
    using scan_loop_length [OF t assms(1)] assms(1) by simp
  from assms(2) have "us = us1 \<or> us = us2"
    by (auto simp: extract_from_scan s t Let_def split: if_splits)
  with l1 l2 show ?thesis by blast
qed

lemma extract_from_prefix12:
  assumes "0 < k" and "k \<le> int (length (filter (\<lambda>e. is_data_uri (src_of e)) pre))"
  shows "extract_from (pre @ post) relaxed svg (Some k) = extract_from pre relaxed svg (Some k)"
    and "extract_from [] (pre @ post) svg (Some k) = extract_from [] pre svg (Some k)"
proof -
  from assms have ne: "pre \<noteq> []" by auto
  have "scan_loop src_of Non_data_URI_ignored (Some k) (pre @ post) ([], [])
        = scan_loop src_of Non_data_URI_ignored (Some k) pre ([], [])"
    using scan_loop_prefix [of k "[]" src_of pre] assms by simp
  then show "extract_from (pre @ post) relaxed svg (Some k) = extract_from pre relaxed svg (Some k)"
    and "extract_from [] (pre @ post) svg (Some k) = extract_from [] pre svg (Some k)"
    using ne by (simp_all add: extract_from_scan Let_def)
qed

lemma extract_from_prefix3:
  assumes "0 < k" and "k \<le> int (length (filter (\<lambda>e. is_data_uri (href_of e)) pre))"
  shows "extract_from strict relaxed (pre @ post) (Some k) = extract_from strict relaxed pre (Some k)"
proof -
  have "scan_loop href_of Non_data_URI_in_image_ignored (Some k) (pre @ post) ([], ws)
        = scan_loop href_of Non_data_URI_in_image_ignored (Some k) pre ([], ws)" for ws
    using scan_loop_prefix [of k "[]" href_of pre] assms by simp
  then show ?thesis
    by (simp add: extract_from_scan Let_def)
qed

text \<open>
  Claim C3. With a positive cap \<open>k\<close> the extraction returns at most \<open>k\<close> URIs, and it
  stops at the \<open>k\<close>-th accepted candidate: whatever follows a list of candidates that holds
  \<open>k\<close> accepted ones changes neither the result nor the warnings, in the strict, the
  relaxed and the fallback tier alike.
\<close>

theorem extract_uris_data_cap:
  assumes "0 < k"
  shows "(\<forall>us. fst (extract_uris_data root (Some k)) = Inr us \<longrightarrow> int (length us) \<le> k)
       \<and> (k \<le> int (length (filter (\<lambda>e. is_data_uri (src_of e)) pre)) \<longrightarrow>
            extract_from (pre @ post) relaxed svg (Some k) = extract_from pre relaxed svg (Some k)
          \<and> extract_from [] (pre @ post) svg (Some k) = extract_from [] pre svg (Some k))
       \<and> (k \<le> int (length (filter (\<lambda>e. is_data_uri (href_of e)) pre)) \<longrightarrow>
            extract_from strict relaxed (pre @ post) (Some k)
            = extract_from strict relaxed pre (Some k))"
  using assms extract_from_length extract_from_prefix12 extract_from_prefix3
  unfolding extract_uris_data_def by blast

theorem extract_uris_data_cap_witness:
  "(0::int) < 1 \<and> extract_uris_data cap_doc (Some 1) = (Inr [uri_A], [])
   \<and> int (length [uri_A]) \<le> 1
   \<and> extract_from ([img_src uri_A] @ [img_src uri_bad, img_src uri_B]) [] [] (Some 1)
       = extract_from [img_src uri_A] [] [] (Some 1)
   \<and> extract_from [] ([img_src uri_A] @ [img_src uri_bad, img_src uri_B]) [] (Some 1)
       = extract_from [] [img_src uri_A] [] (Some 1)
   \<and> extract_from [] [] ([svg_image uri_A] @ [svg_image uri_bad]) (Some 1)
       = extract_from [] [] [svg_image uri_A] (Some 1)"
proof -
  have e: "extract_uris_data cap_doc (Some 1) = (Inr [uri_A], [])"
    by code_simp
  have a: "1 \<le> int (length (filter (\<lambda>e. is_data_uri (src_of e)) [img_src uri_A]))"
    by code_simp
  have b: "1 \<le> int (length (filter (\<lambda>e. is_data_uri (href_of e)) [svg_image uri_A]))"
    by code_simp
  show ?thesis
    using extract_uris_data_cap [where k = 1 and root = cap_doc and pre = "[img_src uri_A]"
        and post = "[img_src uri_bad, img_src uri_B]" and relaxed = "[]" and svg = "[]"]
      extract_uris_data_cap [where k = 1 and root = cap_doc and pre = "[svg_image uri_A]"
        and post = "[svg_image uri_bad]" and strict = "[]" and relaxed = "[]"]
      e a b
    by simp
qed

subsection \<open>The order of the tiers\<close>

lemma scan_loop_accepts:
  assumes "scan_loop rd wk m es (us0, ws0) = (False, us, ws)" and "\<exists>e\<in>set es. is_data_uri (rd e)"
  shows "us \<noteq> []"
proof -
  from scan_loop_stopped [OF assms(1)] have "evaluated rd m es us0 = es" by simp
  with scan_loop_evaluated [OF assms(1)]
  have "us = us0 @ map (\<lambda>e. strip (the (rd e))) (filter (\<lambda>e. is_data_uri (rd e)) es)" by simp
  moreover from assms(2) have "filter (\<lambda>e. is_data_uri (rd e)) es \<noteq> []"
    by (simp add: filter_empty_conv)
  ultimately show ?thesis by simp
qed

lemma extract_from_strict_valid:
  assumes "\<exists>e\<in>set strict. is_data_uri (src_of e)"
  shows "extract_from strict relaxed svg m = extract_from strict relaxed' svg' m"
proof -
  from assms have ne: "strict \<noteq> []" by auto
  obtain b us ws where s: "scan_loop src_of Non_data_URI_ignored m strict ([], []) = (b, us, ws)"
    by (metis prod_cases3)
  have "b \<or> us \<noteq> []"
    using scan_loop_accepts [of src_of Non_data_URI_ignored m strict "[]" "[]" us ws] s assms
    by (cases b) simp_all
  with ne s show ?thesis
    by (auto simp: extract_from_scan Let_def)
qed

text \<open>
  Claim C4. A tier that is not consulted has no influence on what the extraction returns
  or prints. When the strict query yields a candidate, the outcome does not depend on
  what the relaxed query would yield; when tiers 1 and 2 accepted a URI, it does not depend
  on what the fallback query would yield; and when a strict candidate is a valid data URI,
  the outcome is that of the strict candidates alone, whatever the other two queries
  would yield.
\<close>

theorem tier_short_circuit:
  "(strict \<noteq> [] \<longrightarrow>
      extract_from strict relaxed svg m = extract_from strict relaxed' svg m)
   \<and> (fst (snd (scan_loop src_of Non_data_URI_ignored m
               (if strict = [] then relaxed else strict) ([], []))) \<noteq> [] \<longrightarrow>
      extract_from strict relaxed svg m = extract_from strict relaxed svg' m)
   \<and> ((\<exists>n\<in>set (findall_strict root). is_data_uri (src_of (snd n))) \<longrightarrow>
      extract_uris_data root m = extract_from (map snd (findall_strict root)) relaxed' svg' m)"
proof (intro conjI impI)
  assume "strict \<noteq> []"
  then show "extract_from strict relaxed svg m = extract_from strict relaxed' svg m"
    by (simp add: extract_from_scan)
next
  assume "fst (snd (scan_loop src_of Non_data_URI_ignored m
               (if strict = [] then relaxed else strict) ([], []))) \<noteq> []"
  then show "extract_from strict relaxed svg m = extract_from strict relaxed svg' m"
    by (simp add: extract_from_scan Let_def)
next
  assume "\<exists>n\<in>set (findall_strict root). is_data_uri (src_of (snd n))"
  then have "\<exists>e\<in>set (map snd (findall_strict root)). is_data_uri (src_of e)"
    by auto
  then show "extract_uris_data root m = extract_from (map snd (findall_strict root)) relaxed' svg' m"
    unfolding extract_uris_data_def by (rule extract_from_strict_valid)
qed

theorem tier_short_circuit_witness:
  "(\<exists>n\<in>set (findall_strict cap_doc). is_data_uri (src_of (snd n)))
   \<and> extract_uris_data cap_doc None
       = extract_from (map snd (findall_strict cap_doc)) [img_src uri_B] [svg_image uri_B] None
   \<and> fst (extract_uris_data cap_doc None) = Inr [uri_A, uri_B]
   \<and> extract_from [img_src uri_bad] [] [svg_image uri_A] None
       = extract_from [img_src uri_bad] [img_src uri_B] [svg_image uri_A] None
   \<and> extract_from [] [img_src uri_A] [] None
       = extract_from [] [img_src uri_A] [svg_image uri_B] None"
proof -
  have v: "\<exists>n\<in>set (findall_strict cap_doc). is_data_uri (src_of (snd n))"
    by code_simp
  have r: "fst (extract_uris_data cap_doc None) = Inr [uri_A, uri_B]"
    by code_simp
  have s: "[img_src uri_bad] \<noteq> []"
    by simp
  have t: "fst (snd (scan_loop src_of Non_data_URI_ignored None
               (if [] = [] then [img_src uri_A] else []) ([], []))) \<noteq> []"
    by code_simp
  show ?thesis
    using tier_short_circuit [where root = cap_doc and m = None and relaxed' = "[img_src uri_B]"
        and svg' = "[svg_image uri_B]" and strict = "[img_src uri_bad]" and relaxed = "[]"
        and svg = "[svg_image uri_A]"]
      tier_short_circuit [where root = cap_doc and m = None and strict = "[]"
        and relaxed = "[img_src uri_A]" and svg = "[]" and svg' = "[svg_image uri_B]"]
      v r s t
    by blast
qed

subsection \<open>Warnings\<close>

lemma evaluated_None: "evaluated rd None es us0 = es"
  by (induction es arbitrary: us0) (simp_all add: cap_reached_def Let_def)

lemma scan_loop_data_uris:
  assumes "scan_loop rd wk m es (us0, ws0) = (stopped, us, ws)"
    and "\<forall>u\<in>set us0. is_data_uri (Some u)"
  shows "\<forall>u\<in>set us. is_data_uri (Some u)"
proof -
  have "is_data_uri (Some (strip (the (rd e))))" if "is_data_uri (rd e)" for e
    using that by (cases "rd e") (simp_all add: is_data_uri_strip)
  with scan_loop_evaluated [OF assms(1)] assms(2) show ?thesis
    by auto
qed

lemma extract_from_data_uris:
  assumes "fst (extract_from strict relaxed svg m) = Inr us"
  shows "\<forall>u\<in>set us. is_data_uri (Some u)"
proof -
  obtain b1 us1 ws1 where s: "scan_loop src_of Non_data_URI_ignored m
      (if strict = [] then relaxed else strict) ([], []) = (b1, us1, ws1)"
    by (metis prod_cases3)
  obtain b2 us2 ws2 where t: "scan_loop href_of Non_data_URI_in_image_ignored m svg ([], ws1)
      = (b2, us2, ws2)"
    by (metis prod_cases3)
  have d1: "\<forall>u\<in>set us1. is_data_uri (Some u)"
    using scan_loop_data_uris [OF s] by simp
  have d2: "\<forall>u\<in>set us2. is_data_uri (Some u)"
    using scan_loop_data_uris [OF t] by simp
  from assms have "us = us1 \<or> us = us2"
    by (auto simp: extract_from_scan s t Let_def split: if_splits)
  with d1 d2 show ?thesis by blast
qed

lemma extract_from_warnings:
  "snd (extract_from strict relaxed svg m) =
     (let c = (if strict = [] then relaxed else strict);
          s = scan_loop src_of Non_data_URI_ignored m c ([], [])
      in map (\<lambda>e. Non_data_URI_ignored (take 60 (the (src_of e))))
           (filter (rejected src_of) (evaluated src_of m c []))
         @ (if \<not> fst s \<and> fst (snd s) = []
            then map (\<lambda>e. Non_data_URI_in_image_ignored (take 60 (the (href_of e))))
                   (filter (rejected href_of) (evaluated href_of m svg []))
            else []))"
proof -
  define c where "c = (if strict = [] then relaxed else strict)"
  obtain b1 us1 ws1 where s: "scan_loop src_of Non_data_URI_ignored m c ([], []) = (b1, us1, ws1)"
    by (metis prod_cases3)
  obtain b2 us2 ws2 where t: "scan_loop href_of Non_data_URI_in_image_ignored m svg ([], ws1)
      = (b2, us2, ws2)"
    by (metis prod_cases3)
  have w1: "ws1 = map (\<lambda>e. Non_data_URI_ignored (take 60 (the (src_of e))))
           (filter (rejected src_of) (evaluated src_of m c []))"
    using scan_loop_evaluated [OF s] by simp
  have w2: "ws2 = ws1 @ map (\<lambda>e. Non_data_URI_in_image_ignored (take 60 (the (href_of e))))
                   (filter (rejected href_of) (evaluated href_of m svg []))"
    using scan_loop_evaluated [OF t] by simp
  have "snd (extract_from strict relaxed svg m) = (if \<not> b1 \<and> us1 = [] then ws2 else ws1)"
    using s t by (simp add: extract_from_scan Let_def c_def [symmetric])
  with w1 w2 s show ?thesis
    by (simp add: Let_def c_def [symmetric])
qed

subsection \<open>Clearing the selected element\<close>

lemma clear_loop_length:
  "length (clear_loop i cs) = (if i < length cs then i + (length cs - i) div 2 else length cs)"
proof (induction i cs rule: clear_loop.induct)
  case (1 i cs)
  show ?case
  proof (cases "i < length cs")
    case True
    then have "length (clear_loop (Suc i) (take i cs @ drop (Suc i) cs))
               = (if Suc i < length cs - 1 then Suc i + (length cs - 1 - Suc i) div 2
                  else length cs - 1)"
      using "1.IH" by (simp add: min_def)
    moreover have "clear_loop i cs = clear_loop (Suc i) (take i cs @ drop (Suc i) cs)"
      using True by (subst clear_loop.simps) simp
    ultimately show ?thesis
      using True by (simp split: if_splits)
  next
    case False
    then show ?thesis
      by (subst clear_loop.simps) simp
  qed
qed

text \<open>
  Claim C1 does not hold of the code. The loop removes children while it walks over them
  by index, so it skips every second child: of \<open>n\<close> children \<open>n div 2\<close> remain
  (\<open>clear_loop_length\<close>). For a target whose only \<^verbatim>\<open>foreignObject\<close> has two children,
  \<^verbatim>\<open>find_object\<close> with \<^verbatim>\<open>merge=False\<close> returns that element with its second child still
  in place.
\<close>

theorem find_object_keeps_a_child:
  "find_object two_children_doc False
     = Inr ([0], svg_root [foreign_object [div_class ''second'' []]])
   \<and> at two_children_doc [0] = Some (foreign_object [div_class ''first'' [], div_class ''second'' []])"
  by code_simp

subsection \<open>Order of the extracted URIs\<close>

text \<open>
  Claim C5 does not hold of the code. In \<open>nested_doc\<close> an \<^verbatim>\<open>anilist\<close> div is the first child
  of another one; the strict query lists the \<^verbatim>\<open>img\<close> of the outer div's own
  \<^verbatim>\<open>characters\<close> child before the \<^verbatim>\<open>img\<close> inside the nested div, although the latter
  comes first in the document. The URIs are returned in the query's order.
\<close>

theorem extract_nested_out_of_order:
  "map (\<lambda>n. src_of (snd n)) (filter (\<lambda>n. tag (snd n) = Tag_IMG) (iter nested_doc))
     = [Some uri_B, Some uri_A]
   \<and> extract_uris_data nested_doc None = (Inr [uri_A, uri_B], [])"
  by code_simp

subsection \<open>Positions and document order\<close>

lemma shifted_Nil [simp]: "shifted k [] = []"
  by (simp add: shifted_def)

lemma shifted_Cons [simp]:
  "shifted k (ns # nss) = map (\<lambda>(p, d). (k # p, d)) ns @ shifted (Suc k) nss"
  by (simp add: shifted_def)

lemma iter_shifted: "iter (Element t a x y cs) = ([], Element t a x y cs) # shifted 0 (map iter cs)"
  by (simp add: shifted_def)

lemma shifted_set:
  "(q, d) \<in> set (shifted k nss) \<longleftrightarrow>
     (\<exists>i p. q = (k + i) # p \<and> i < length nss \<and> (p, d) \<in> set (nss ! i))"
proof (induction nss arbitrary: k)
  case Nil
  then show ?case by simp
next
  case (Cons ns nss)
  have "(q, d) \<in> set (shifted k (ns # nss)) \<longleftrightarrow>
          (\<exists>p. q = k # p \<and> (p, d) \<in> set ns) \<or> (q, d) \<in> set (shifted (Suc k) nss)"
    by auto
  also have "\<dots> \<longleftrightarrow> (\<exists>p. q = k # p \<and> (p, d) \<in> set ns) \<or>
          (\<exists>i p. q = (Suc k + i) # p \<and> i < length nss \<and> (p, d) \<in> set (nss ! i))"
    by (simp only: Cons.IH)
  also have "\<dots> \<longleftrightarrow> (\<exists>i p. q = (k + i) # p \<and> i < length (ns # nss) \<and> (p, d) \<in> set ((ns # nss) ! i))"
  proof
    assume "(\<exists>p. q = k # p \<and> (p, d) \<in> set ns) \<or>
          (\<exists>i p. q = (Suc k + i) # p \<and> i < length nss \<and> (p, d) \<in> set (nss ! i))"
    then show "\<exists>i p. q = (k + i) # p \<and> i < length (ns # nss) \<and> (p, d) \<in> set ((ns # nss) ! i)"
    proof
      assume "\<exists>p. q = k # p \<and> (p, d) \<in> set ns"
      then obtain p where "q = (k + 0) # p" "(p, d) \<in> set ((ns # nss) ! 0)" by auto
      then show ?thesis by (intro exI [of _ 0] exI [of _ p]) simp
    next
      assume "\<exists>i p. q = (Suc k + i) # p \<and> i < length nss \<and> (p, d) \<in> set (nss ! i)"
      then obtain i p where "q = (k + Suc i) # p" "Suc i < length (ns # nss)"
        "(p, d) \<in> set ((ns # nss) ! Suc i)" by auto
      then show ?thesis by blast
    qed
  next
    assume "\<exists>i p. q = (k + i) # p \<and> i < length (ns # nss) \<and> (p, d) \<in> set ((ns # nss) ! i)"
    then obtain i p where ip: "q = (k + i) # p" "i < length (ns # nss)" "(p, d) \<in> set ((ns # nss) ! i)"
      by blast
    show "(\<exists>p. q = k # p \<and> (p, d) \<in> set ns) \<or>
          (\<exists>i p. q = (Suc k + i) # p \<and> i < length nss \<and> (p, d) \<in> set (nss ! i))"
    proof (cases i)
      case 0
      with ip show ?thesis by simp
    next
      case (Suc j)
      with ip have "q = (Suc k + j) # p" "j < length nss" "(p, d) \<in> set (nss ! j)" by simp_all
      then show ?thesis by blast
    qed
  qed
  finally show ?case .
qed

lemma iter_at: "(p, d) \<in> set (iter e) \<longleftrightarrow> at e p = Some d"
proof (induction e arbitrary: p d)
  case (Element t a x y cs)
  show ?case
  proof (cases p)
    case Nil
    have "([], d) \<notin> set (shifted 0 (map iter cs))"
      by (simp add: shifted_set)
    with Nil show ?thesis
      by (auto simp: iter_shifted simp del: iter.simps)
  next
    case (Cons i q)
    have "(i # q, d) \<in> set (shifted 0 (map iter cs)) \<longleftrightarrow> i < length cs \<and> (q, d) \<in> set (iter (cs ! i))"
      by (auto simp: shifted_set)
    also have "\<dots> \<longleftrightarrow> i < length cs \<and> at (cs ! i) q = Some d"
      using Element.IH by (metis nth_mem)
    finally show ?thesis
      using Cons by (simp add: iter_shifted del: iter.simps)
  qed
qed

lemma branch_before_doc_before: "branch_before p q \<Longrightarrow> doc_before p q"
  by (induction p q rule: doc_before.induct) auto

lemma branch_before_append: "branch_before p q \<Longrightarrow> branch_before (p @ x) (q @ y)"
  by (induction p q rule: branch_before.induct) auto

lemma doc_before_cases: "doc_before p q \<Longrightarrow> branch_before p q \<or> strict_prefix p q"
  by (induction p q rule: doc_before.induct) auto

lemma doc_before_irrefl: "\<not> doc_before p p"
  by (induction p) auto

lemma shifted_sorted:
  "(\<forall>ns\<in>set nss. sorted_wrt doc_before (map fst ns)) \<Longrightarrow>
     sorted_wrt doc_before (map fst (shifted k nss))"
proof (induction nss arbitrary: k)
  case Nil
  then show ?case by simp
next
  case (Cons ns nss)
  have first: "sorted_wrt doc_before (map fst (map (\<lambda>(p, d). (k # p, d)) ns))"
    using Cons.prems by (simp add: sorted_wrt_map case_prod_beta)
  have rest: "sorted_wrt doc_before (map fst (shifted (Suc k) nss))"
    using Cons.IH Cons.prems by simp
  have cross: "doc_before (fst u) (fst v)"
    if "u \<in> set (map (\<lambda>(p, d). (k # p, d)) ns)" "v \<in> set (shifted (Suc k) nss)" for u v
  proof -
    from that(1) obtain p where "fst u = k # p" by auto
    moreover from that(2) obtain i q where "fst v = (Suc k + i) # q"
      using shifted_set [of "fst v" "snd v" "Suc k" nss] by auto
    ultimately show ?thesis by simp
  qed
  show ?case
    using first rest cross by (simp add: sorted_wrt_append del: map_map)
qed

lemma iter_sorted: "sorted_wrt doc_before (map fst (iter e))"
proof (induction e)
  case (Element t a x y cs)
  have "sorted_wrt doc_before (map fst (shifted 0 (map iter cs)))"
    using Element.IH by (intro shifted_sorted) auto
  moreover have "doc_before [] (fst v)" if "v \<in> set (shifted 0 (map iter cs))" for v
  proof -
    from that obtain i q where "fst v = i # q"
      using shifted_set [of "fst v" "snd v" 0 "map iter cs"] by auto
    then show ?thesis by simp
  qed
  ultimately show ?case
    by (simp add: iter_shifted del: iter.simps)
qed

subsection \<open>The queries from the root\<close>

lemma concat_map_if_filter:
  "concat (map (\<lambda>x. if P x then [f x] else []) xs) = map f (filter P xs)"
  by (induction xs) simp_all

lemma select_descendant_root:
  "select_descendant t [([], root)] = filter (\<lambda>(q, e). tag e = t \<and> q \<noteq> []) (iter root)"
proof -
  have "select_descendant t [([], root)]
        = concat (map (\<lambda>x. if tag (snd x) = t \<and> fst x \<noteq> [] then [x] else []) (iter root))"
    by (simp add: select_descendant_def case_prod_beta cong: if_cong)
       (rule arg_cong [where f = concat], rule map_cong, auto)
  then show ?thesis
    by (simp add: concat_map_if_filter [where f = "\<lambda>x. x"] case_prod_unfold)
qed

lemma select_descendant_root_set:
  "(q, e) \<in> set (select_descendant t [([], root)]) \<longleftrightarrow> q \<noteq> [] \<and> at root q = Some e \<and> tag e = t"
  by (auto simp: select_descendant_root iter_at)

lemma select_descendant_root_sorted:
  "sorted_wrt doc_before (map fst (select_descendant t [([], root)]))"
proof -
  have "sorted_wrt (\<lambda>a b. doc_before (fst a) (fst b)) (iter root)"
    using iter_sorted [of root] by (simp add: sorted_wrt_map)
  then show ?thesis
    by (simp add: select_descendant_root sorted_wrt_map sorted_wrt_filter)
qed

lemma sorted_wrt_hd:
  "sorted_wrt R xs \<Longrightarrow> x \<in> set xs \<Longrightarrow> x = hd xs \<or> R (hd xs) x"
  by (cases xs) auto

lemma filter_sorted_hd:
  assumes "sorted_wrt doc_before (map fst ns)" and "n \<in> set ns" and "P n"
  shows "filter P ns \<noteq> []" and "hd (filter P ns) \<in> set ns" and "P (hd (filter P ns))"
    and "fst n = fst (hd (filter P ns)) \<or> doc_before (fst (hd (filter P ns))) (fst n)"
proof -
  from assms(2,3) have mem: "n \<in> set (filter P ns)" by simp
  then show ne: "filter P ns \<noteq> []" by (cases "filter P ns") simp_all
  then have "hd (filter P ns) \<in> set (filter P ns)" by (rule hd_in_set)
  then show "hd (filter P ns) \<in> set ns" and "P (hd (filter P ns))" by simp_all
  have "sorted_wrt (\<lambda>a b. doc_before (fst a) (fst b)) (filter P ns)"
    using assms(1) by (simp add: sorted_wrt_map sorted_wrt_filter)
  from sorted_wrt_hd [OF this mem]
  show "fst n = fst (hd (filter P ns)) \<or> doc_before (fst (hd (filter P ns))) (fst n)" by auto
qed

subsection \<open>Selection with merge\<close>

lemma insertion_point_iff:
  "insertion_point root q \<longleftrightarrow> (\<exists>e. (q, e) \<in> set (findall_foreign_object root))"
  by (auto simp: insertion_point_def findall_foreign_object_def select_descendant_root_set
      split: option.splits)

lemma marked_iff:
  "marked root q \<longleftrightarrow> (\<exists>e. (q, e) \<in> set (findall_foreign_object root) \<and> has_anilist e)"
  by (auto simp: marked_def findall_foreign_object_def select_descendant_root_set
      split: option.splits)

text \<open>
  Claim C7, amended. For a target with a \<^verbatim>\<open>foreignObject\<close> below its root element,
  \<^verbatim>\<open>find_object\<close> with \<^verbatim>\<open>merge=True\<close> returns a \<^verbatim>\<open>foreignObject\<close> below the root and leaves
  the tree as it was, so no child of the returned element is removed. If some
  \<^verbatim>\<open>foreignObject\<close> below the root holds an anilist div, the returned one does and comes
  before every other such element in document order; otherwise it comes before every other
  \<^verbatim>\<open>foreignObject\<close> below the root.
\<close>

theorem find_object_merge:
  assumes "\<exists>q. insertion_point root q"
  shows "\<exists>p. find_object root True = Inr (p, root) \<and> insertion_point root p \<and>
           (if \<exists>q. marked root q
            then marked root p \<and> (\<forall>q. marked root q \<longrightarrow> q = p \<or> doc_before p q)
            else (\<forall>q. insertion_point root q \<longrightarrow> q = p \<or> doc_before p q))"
proof -
  define fos where "fos = findall_foreign_object root"
  have sorted: "sorted_wrt doc_before (map fst fos)"
    by (simp add: fos_def findall_foreign_object_def select_descendant_root_sorted)
  from assms obtain q0 e0 where n0: "(q0, e0) \<in> set fos"
    by (auto simp: insertion_point_iff fos_def)
  then have ne: "fos \<noteq> []" by auto
  show ?thesis
  proof (cases "\<exists>q. marked root q")
    case True
    then obtain q1 e1 where n1: "(q1, e1) \<in> set fos" "has_anilist e1"
      by (auto simp: marked_iff fos_def)
    define P where "P = (\<lambda>obj :: node. has_anilist (snd obj))"
    define h where "h = hd (filter P fos)"
    have P1: "P (q1, e1)" using n1 by (simp add: P_def)
    have fne: "filter P fos \<noteq> []" and hin: "h \<in> set fos" and hP: "P h"
      using filter_sorted_hd [where P = P, OF sorted n1(1) P1] by (simp_all add: h_def)
    have res: "find_object root True = Inr (fst h, root)"
      using ne fne by (simp add: find_object_def fos_def [symmetric] Let_def P_def h_def)
    have hm: "marked root (fst h)" and hi: "insertion_point root (fst h)"
      using hin hP by (auto simp: marked_iff insertion_point_iff fos_def P_def
          intro: exI [of _ "snd h"])
    have first: "q = fst h \<or> doc_before (fst h) q" if "marked root q" for q
    proof -
      from that obtain e where "(q, e) \<in> set fos" "P (q, e)"
        by (auto simp: marked_iff fos_def P_def)
      from filter_sorted_hd(4) [where P = P, OF sorted this] show ?thesis by (simp add: h_def)
    qed
    from True res hm hi first show ?thesis by auto
  next
    case False
    define P where "P = (\<lambda>obj :: node. has_anilist (snd obj))"
    have none: "filter P fos = []"
      using False by (auto simp: marked_iff fos_def P_def filter_empty_conv)
    define h where "h = hd fos"
    have res: "find_object root True = Inr (fst h, root)"
      using ne none by (simp add: find_object_def fos_def [symmetric] Let_def P_def h_def)
    have hin: "h \<in> set fos" using ne by (simp add: h_def)
    then have hi: "insertion_point root (fst h)"
      by (auto simp: insertion_point_iff fos_def intro: exI [of _ "snd h"])
    have first: "q = fst h \<or> doc_before (fst h) q" if "insertion_point root q" for q
    proof -
      from that obtain e where "(q, e) \<in> set fos"
        by (auto simp: insertion_point_iff fos_def)
      from filter_sorted_hd(4) [where P = "\<lambda>_. True", OF sorted this] show ?thesis
        by (simp add: h_def)
    qed
    from False res hi first show ?thesis by auto
  qed
qed

text \<open>
  Claim C7 as stated fails for a document whose root element is itself the
  \<^verbatim>\<open>foreignObject\<close>: the query \<^verbatim>\<open>.//svg:foreignObject\<close> leaves the start element out, so
  although \<open>root_fo_doc\<close> holds a \<^verbatim>\<open>foreignObject\<close> with an anilist div inside, the selection
  ends in the fatal error.
\<close>

theorem find_object_merge_counterexample:
  "tag root_fo_doc = Tag_FOREIGN_OBJECT \<and> has_anilist root_fo_doc
   \<and> find_object root_fo_doc True = Inl No_foreignObject"
  by code_simp

theorem find_object_merge_witness:
  "insertion_point merge_doc [0] \<and> marked merge_doc [1] \<and> marked merge_doc [2]
   \<and> find_object merge_doc True = Inr ([1], merge_doc)
   \<and> doc_before [1] [2]"
proof -
  have i: "insertion_point merge_doc [0]" by code_simp
  have m: "marked merge_doc [1]" "marked merge_doc [2]" by code_simp+
  have r: "find_object merge_doc True = Inr ([1], merge_doc)" by code_simp
  from i have "\<exists>q. insertion_point merge_doc q" ..
  from find_object_merge [OF this] r m
  have "\<forall>q. marked merge_doc q \<longrightarrow> q = [1] \<or> doc_before [1] q"
    by (auto split: if_splits)
  with m(2) have "[2] = [1::nat] \<or> doc_before [1] [2]" by blast
  then have "doc_before [1] [2]" by simp
  with i m r show ?thesis by blast
qed

subsection \<open>What the selectors yield\<close>

lemma at_append: "at e (p @ q) = (case at e p of None \<Rightarrow> None | Some d \<Rightarrow> at d q)"
  by (induction p arbitrary: e) simp_all

lemma select_attr_set:
  "(p, e) \<in> set (select_attr key v result) \<longleftrightarrow> (p, e) \<in> set result \<and> get e key = Some v"
  by (auto simp: select_attr_def)

lemma select_child_alt:
  "select_child t result =
     concat (map (\<lambda>n. map (\<lambda>c. (fst n @ [fst c], snd c))
       (filter (\<lambda>c. tag (snd c) = t) (enumerate 0 (children (snd n))))) result)"
proof -
  have "concat (map (\<lambda>c. if tag (snd c) = t then [(p @ [fst c], snd c)] else []) cs)
        = map (\<lambda>c. (p @ [fst c], snd c)) (filter (\<lambda>c. tag (snd c) = t) cs)" for p and cs :: "(nat \<times> element) list"
    by (induction cs) simp_all
  then show ?thesis
    by (simp add: select_child_def case_prod_unfold)
qed

lemma select_descendant_alt:
  "select_descendant t result =
     concat (map (\<lambda>n. map (\<lambda>c. (fst n @ fst c, snd c))
       (filter (\<lambda>c. tag (snd c) = t \<and> fst c \<noteq> []) (iter (snd n)))) result)"
proof -
  have "concat (map (\<lambda>c. if tag (snd c) = t then if fst c \<noteq> [] then [(p @ fst c, snd c)] else [] else []) cs)
        = map (\<lambda>c. (p @ fst c, snd c)) (filter (\<lambda>c. tag (snd c) = t \<and> fst c \<noteq> []) cs)" for p and cs :: "node list"
    by (induction cs) simp_all
  then show ?thesis
    by (simp add: select_descendant_def case_prod_unfold)
qed

lemma select_child_set:
  "(p', e') \<in> set (select_child t result) \<longleftrightarrow>
     (\<exists>p elem i. (p, elem) \<in> set result \<and> i < length (children elem) \<and> p' = p @ [i] \<and>
        e' = children elem ! i \<and> tag e' = t)"
proof
  assume "(p', e') \<in> set (select_child t result)"
  then obtain n c where "n \<in> set result" "c \<in> set (enumerate 0 (children (snd n)))"
    "tag (snd c) = t" "p' = fst n @ [fst c]" "e' = snd c"
    by (auto simp: select_child_alt)
  moreover from this have "fst c < length (children (snd n))" "children (snd n) ! fst c = snd c"
    by (simp_all add: in_set_enumerate_eq)
  ultimately show "\<exists>p elem i. (p, elem) \<in> set result \<and> i < length (children elem) \<and>
      p' = p @ [i] \<and> e' = children elem ! i \<and> tag e' = t"
    by (intro exI [of _ "fst n"] exI [of _ "snd n"] exI [of _ "fst c"]) simp
next
  assume "\<exists>p elem i. (p, elem) \<in> set result \<and> i < length (children elem) \<and>
      p' = p @ [i] \<and> e' = children elem ! i \<and> tag e' = t"
  then obtain p elem i where h: "(p, elem) \<in> set result" "i < length (children elem)"
    "p' = p @ [i]" "e' = children elem ! i" "tag e' = t" by blast
  then have "(i, e') \<in> set (enumerate 0 (children elem))"
    by (simp add: in_set_enumerate_eq)
  with h show "(p', e') \<in> set (select_child t result)"
    by (force simp: select_child_alt)
qed

lemma select_descendant_set:
  "(p', e') \<in> set (select_descendant t result) \<longleftrightarrow>
     (\<exists>p elem q. (p, elem) \<in> set result \<and> q \<noteq> [] \<and> at elem q = Some e' \<and> tag e' = t \<and>
        p' = p @ q)"
proof
  assume "(p', e') \<in> set (select_descendant t result)"
  then obtain n c where "n \<in> set result" "c \<in> set (iter (snd n))" "tag (snd c) = t" "fst c \<noteq> []"
    "p' = fst n @ fst c" "e' = snd c"
    by (auto simp: select_descendant_alt)
  moreover from this have "at (snd n) (fst c) = Some (snd c)"
    using iter_at [of "fst c" "snd c" "snd n"] by simp
  ultimately show "\<exists>p elem q. (p, elem) \<in> set result \<and> q \<noteq> [] \<and> at elem q = Some e' \<and> tag e' = t \<and>
        p' = p @ q"
    by (intro exI [of _ "fst n"] exI [of _ "snd n"] exI [of _ "fst c"]) simp
next
  assume "\<exists>p elem q. (p, elem) \<in> set result \<and> q \<noteq> [] \<and> at elem q = Some e' \<and> tag e' = t \<and>
        p' = p @ q"
  then obtain p elem q where h: "(p, elem) \<in> set result" "q \<noteq> []" "at elem q = Some e'" "tag e' = t"
    "p' = p @ q" by blast
  then have "(q, e') \<in> set (iter elem)" by (simp add: iter_at)
  with h show "(p', e') \<in> set (select_descendant t result)"
    by (force simp: select_descendant_alt)
qed

lemma at_snoc:
  "at root (a @ [i]) = Some c \<longleftrightarrow>
     (\<exists>d. at root a = Some d \<and> i < length (children d) \<and> c = children d ! i)"
  by (auto simp: at_append split: option.splits if_splits)

lemma anilist_divs_set:
  "(a, d) \<in> set (select_attr ''class'' ''anilist'' (select_descendant Tag_DIV [([], root)])) \<longleftrightarrow>
     a \<noteq> [] \<and> at root a = Some d \<and> is_div_class ''anilist'' d"
  by (auto simp: select_attr_set select_descendant_root_set is_div_class_def)

lemma findall_strict_set:
  "(p, e) \<in> set (findall_strict root) \<longleftrightarrow>
     (\<exists>a i j d c. a \<noteq> [] \<and> p = a @ [i, j] \<and>
        at root a = Some d \<and> is_div_class ''anilist'' d \<and>
        at root (a @ [i]) = Some c \<and> is_div_class ''characters'' c \<and>
        at root p = Some e \<and> tag e = Tag_IMG)"
proof
  assume "(p, e) \<in> set (findall_strict root)"
  then obtain pc c j where c: "(pc, c) \<in> set (select_attr ''class'' ''characters''
         (select_child Tag_DIV
           (select_attr ''class'' ''anilist'' (select_descendant Tag_DIV [([], root)]))))"
    and j: "j < length (children c)" "p = pc @ [j]" "e = children c ! j" "tag e = Tag_IMG"
    unfolding findall_strict_def select_child_set [of p e] by blast
  from c obtain a d i where d: "a \<noteq> []" "at root a = Some d" "is_div_class ''anilist'' d"
    and i: "i < length (children d)" "pc = a @ [i]" "c = children d ! i" "tag c = Tag_DIV"
      "get c ''class'' = Some ''characters''"
    unfolding select_attr_set [of pc c] select_child_set [of pc c] anilist_divs_set by blast
  have atc: "at root (a @ [i]) = Some c"
    using d i by (simp add: at_snoc)
  then have "at root ((a @ [i]) @ [j]) = Some e"
    using j unfolding at_snoc [of root "a @ [i]"] by simp
  with d i j atc show "\<exists>a i j d c. a \<noteq> [] \<and> p = a @ [i, j] \<and>
        at root a = Some d \<and> is_div_class ''anilist'' d \<and>
        at root (a @ [i]) = Some c \<and> is_div_class ''characters'' c \<and>
        at root p = Some e \<and> tag e = Tag_IMG"
    by (intro exI [of _ a] exI [of _ i] exI [of _ j] exI [of _ d] exI [of _ c])
       (simp add: is_div_class_def)
next
  assume "\<exists>a i j d c. a \<noteq> [] \<and> p = a @ [i, j] \<and>
        at root a = Some d \<and> is_div_class ''anilist'' d \<and>
        at root (a @ [i]) = Some c \<and> is_div_class ''characters'' c \<and>
        at root p = Some e \<and> tag e = Tag_IMG"
  then obtain a i j d c where h: "a \<noteq> []" "p = a @ [i, j]" "at root a = Some d"
    "is_div_class ''anilist'' d" "at root (a @ [i]) = Some c" "is_div_class ''characters'' c"
    "at root p = Some e" "tag e = Tag_IMG" by blast
  from h(3,5) have i: "i < length (children d)" "c = children d ! i"
    by (simp_all add: at_snoc)
  from h(2,7) have "at root ((a @ [i]) @ [j]) = Some e" by simp
  with h(5) have j: "j < length (children c)" "e = children c ! j"
    unfolding at_snoc [of root "a @ [i]"] by simp_all
  have "(a, d) \<in> set (select_attr ''class'' ''anilist'' (select_descendant Tag_DIV [([], root)]))"
    using h by (simp add: anilist_divs_set)
  then have "(a @ [i], c) \<in> set (select_child Tag_DIV
           (select_attr ''class'' ''anilist'' (select_descendant Tag_DIV [([], root)])))"
    unfolding select_child_set [of "a @ [i]" c] using i h(6) by (auto simp: is_div_class_def)
  then have "(a @ [i], c) \<in> set (select_attr ''class'' ''characters'' (select_child Tag_DIV
           (select_attr ''class'' ''anilist'' (select_descendant Tag_DIV [([], root)]))))"
    using h(6) by (simp add: select_attr_set is_div_class_def)
  then have "((a @ [i]) @ [j], e) \<in> set (findall_strict root)"
    unfolding findall_strict_def select_child_set [of "(a @ [i]) @ [j]" e] using j h(8) by blast
  with h(2) show "(p, e) \<in> set (findall_strict root)" by simp
qed

lemma findall_relaxed_set:
  "(p, e) \<in> set (findall_relaxed root) \<longleftrightarrow>
     (\<exists>a q d. a \<noteq> [] \<and> q \<noteq> [] \<and> p = a @ q \<and> at root a = Some d \<and>
        is_div_class ''anilist'' d \<and> at root p = Some e \<and> tag e = Tag_IMG)"
proof -
  have "(p, e) \<in> set (findall_relaxed root) \<longleftrightarrow>
     (\<exists>a d q. (a \<noteq> [] \<and> at root a = Some d \<and> is_div_class ''anilist'' d) \<and> q \<noteq> [] \<and>
        at d q = Some e \<and> tag e = Tag_IMG \<and> p = a @ q)"
    unfolding findall_relaxed_def select_descendant_set [of p e] anilist_divs_set ..
  also have "\<dots> \<longleftrightarrow> (\<exists>a q d. a \<noteq> [] \<and> q \<noteq> [] \<and> p = a @ q \<and> at root a = Some d \<and>
        is_div_class ''anilist'' d \<and> at root p = Some e \<and> tag e = Tag_IMG)"
    by (auto simp: at_append)
  finally show ?thesis .
qed

lemma has_anilist_iff:
  "has_anilist fo \<longleftrightarrow> (\<exists>a d. a \<noteq> [] \<and> at fo a = Some d \<and> is_div_class ''anilist'' d)"
proof -
  have "has_anilist fo \<longleftrightarrow>
    (\<exists>n. n \<in> set (select_attr ''class'' ''anilist'' (select_descendant Tag_DIV [([], fo)])))"
    unfolding has_anilist_def
    by (cases "select_attr ''class'' ''anilist'' (select_descendant Tag_DIV [([], fo)])") auto
  also have "\<dots> \<longleftrightarrow> (\<exists>a d. a \<noteq> [] \<and> at fo a = Some d \<and> is_div_class ''anilist'' d)"
    using anilist_divs_set [of _ _ fo] by auto
  finally show ?thesis .
qed

subsection \<open>Exact class matching\<close>

lemma no_anilist_div_no_candidates:
  assumes "\<forall>n\<in>set (iter root). \<not> (tag (snd n) = Tag_DIV \<and> get (snd n) ''class'' = Some ''anilist'')"
  shows "findall_strict root = []" and "findall_relaxed root = []" and "\<not> has_anilist root"
proof -
  have none: "\<not> is_div_class ''anilist'' d" if "at root a = Some d" for a d
  proof -
    from that have "(a, d) \<in> set (iter root)" by (simp add: iter_at)
    with assms show ?thesis by (auto simp: is_div_class_def)
  qed
  have "n \<notin> set (findall_strict root)" for n
    using findall_strict_set [of "fst n" "snd n" root] none by auto
  then show "findall_strict root = []"
    by (cases "findall_strict root") auto
  have "n \<notin> set (findall_relaxed root)" for n
    using findall_relaxed_set [of "fst n" "snd n" root] none by auto
  then show "findall_relaxed root = []"
    by (cases "findall_relaxed root") auto
  show "\<not> has_anilist root"
    using none by (auto simp: has_anilist_iff)
qed

text \<open>
  Claim C10. The only elements that serve as anilist container or marker are XHTML divs
  whose class attribute equals \<^verbatim>\<open>anilist\<close> as a whole. Every strict candidate is a
  grandchild of such a div, every relaxed candidate lies below one, and \<^verbatim>\<open>has_anilist\<close>
  holds only of an element with such a div below it. So in a document without such a div
  (whatever it holds with a class like \<^verbatim>\<open>anilist card\<close>, or with class \<^verbatim>\<open>anilist\<close> on
  another tag) tiers 1 and 2 find no candidate and no marker is seen.
\<close>

theorem anilist_class_exact:
  "((p, e) \<in> set (findall_strict root) \<longrightarrow>
      (\<exists>a i j d. a \<noteq> [] \<and> p = a @ [i, j] \<and> at root a = Some d \<and>
         tag d = Tag_DIV \<and> get d ''class'' = Some ''anilist''))
   \<and> ((p, e) \<in> set (findall_relaxed root) \<longrightarrow>
      (\<exists>a q d. a \<noteq> [] \<and> q \<noteq> [] \<and> p = a @ q \<and> at root a = Some d \<and>
         tag d = Tag_DIV \<and> get d ''class'' = Some ''anilist''))
   \<and> (has_anilist fo \<longrightarrow>
      (\<exists>a d. a \<noteq> [] \<and> at fo a = Some d \<and> tag d = Tag_DIV \<and> get d ''class'' = Some ''anilist''))
   \<and> ((\<forall>n\<in>set (iter root).
          \<not> (tag (snd n) = Tag_DIV \<and> get (snd n) ''class'' = Some ''anilist'')) \<longrightarrow>
      findall_strict root = [] \<and> findall_relaxed root = [] \<and> \<not> has_anilist root)"
proof (intro conjI impI)
  assume "(p, e) \<in> set (findall_strict root)"
  then show "\<exists>a i j d. a \<noteq> [] \<and> p = a @ [i, j] \<and> at root a = Some d \<and>
         tag d = Tag_DIV \<and> get d ''class'' = Some ''anilist''"
    unfolding findall_strict_set is_div_class_def by blast
next
  assume "(p, e) \<in> set (findall_relaxed root)"
  then show "\<exists>a q d. a \<noteq> [] \<and> q \<noteq> [] \<and> p = a @ q \<and> at root a = Some d \<and>
         tag d = Tag_DIV \<and> get d ''class'' = Some ''anilist''"
    unfolding findall_relaxed_set is_div_class_def by blast
next
  assume "has_anilist fo"
  then show "\<exists>a d. a \<noteq> [] \<and> at fo a = Some d \<and> tag d = Tag_DIV \<and> get d ''class'' = Some ''anilist''"
    unfolding has_anilist_iff is_div_class_def by blast
next
  assume h: "\<forall>n\<in>set (iter root).
          \<not> (tag (snd n) = Tag_DIV \<and> get (snd n) ''class'' = Some ''anilist'')"
  show "findall_strict root = []" and "findall_relaxed root = []" and "\<not> has_anilist root"
    using no_anilist_div_no_candidates [OF h] by blast+
qed

theorem anilist_class_exact_witness:
  "at multi_class_doc [0, 0]
     = Some (div_class ''anilist card'' [div_class ''characters'' [img_src uri_A]])
   \<and> tag (the (at multi_class_doc [0, 1])) = Tag_SECTION
   \<and> get (the (at multi_class_doc [0, 1])) ''class'' = Some ''anilist''
   \<and> findall_strict multi_class_doc = [] \<and> findall_relaxed multi_class_doc = []
   \<and> \<not> has_anilist multi_class_doc
   \<and> ([0, 0, 1], img_src uri_bad) \<in> set (findall_strict cap_doc)
   \<and> (\<exists>a i j d. a \<noteq> [] \<and> [0, 0, 1] = a @ [i, j] \<and> at cap_doc a = Some d \<and>
         tag d = Tag_DIV \<and> get d ''class'' = Some ''anilist'')"
proof -
  have a: "at multi_class_doc [0, 0]
      = Some (div_class ''anilist card'' [div_class ''characters'' [img_src uri_A]])"
    "tag (the (at multi_class_doc [0, 1])) = Tag_SECTION"
    "get (the (at multi_class_doc [0, 1])) ''class'' = Some ''anilist''"
    by code_simp+
  have h: "\<forall>n\<in>set (iter multi_class_doc).
          \<not> (tag (snd n) = Tag_DIV \<and> get (snd n) ''class'' = Some ''anilist'')"
    by code_simp
  have c: "([0, 0, 1], img_src uri_bad) \<in> set (findall_strict cap_doc)"
    by code_simp
  show ?thesis
    using anilist_class_exact [where root = multi_class_doc]
      anilist_class_exact [where root = cap_doc and p = "[0, 0, 1]" and e = "img_src uri_bad"]
      a h c
    by blast
qed

subsection \<open>The strict tier\<close>

lemma sorted_wrt_irrefl_distinct:
  "sorted_wrt R xs \<Longrightarrow> (\<And>x. \<not> R x x) \<Longrightarrow> distinct xs"
  by (induction xs) auto

lemma enumerate_sorted: "sorted_wrt (\<lambda>c c'. fst c < fst c') (enumerate k xs)"
proof -
  have "sorted_wrt (<) (map fst (enumerate k xs))"
    by (simp add: sorted_wrt_upt)
  then show ?thesis
    by (simp only: sorted_wrt_map)
qed

lemma select_child_Nil: "select_child t [] = []"
  by (simp add: select_child_def)

lemma select_child_Cons:
  "select_child t (n # ns) =
     map (\<lambda>c. (fst n @ [fst c], snd c)) (filter (\<lambda>c. tag (snd c) = t) (enumerate 0 (children (snd n))))
     @ select_child t ns"
  by (simp add: select_child_alt)

lemma select_child_sorted:
  assumes "sorted_wrt R (map fst result)"
    and "\<And>p q i j. R p q \<Longrightarrow> R' (p @ [i]) (q @ [j])"
    and "\<And>p i j. i < j \<Longrightarrow> R' (p @ [i]) (p @ [j])"
  shows "sorted_wrt R' (map fst (select_child t result))"
  using assms(1)
proof (induction result)
  case Nil
  then show ?case by (simp add: select_child_Nil)
next
  case (Cons n ns)
  define block where "block = map (\<lambda>c. (fst n @ [fst c], snd c))
      (filter (\<lambda>c. tag (snd c) = t) (enumerate 0 (children (snd n))))"
  have "sorted_wrt (\<lambda>c c'. fst c < fst c')
      (filter (\<lambda>c. tag (snd c) = t) (enumerate 0 (children (snd n))))"
    by (intro sorted_wrt_filter enumerate_sorted)
  then have "sorted_wrt (\<lambda>c c'. R' (fst n @ [fst c]) (fst n @ [fst c']))
      (filter (\<lambda>c. tag (snd c) = t) (enumerate 0 (children (snd n))))"
    by (rule sorted_wrt_mono_rel [rotated]) (simp add: assms(3))
  then have first: "sorted_wrt R' (map fst block)"
    by (simp add: block_def sorted_wrt_map)
  have rest: "sorted_wrt R' (map fst (select_child t ns))"
    using Cons by simp
  have cross: "R' (fst u) (fst v)" if "u \<in> set block" "v \<in> set (select_child t ns)" for u v
  proof -
    from that(1) obtain i where u: "fst u = fst n @ [i]" by (auto simp: block_def)
    from that(2) obtain q j where v: "q \<in> fst ` set ns" "fst v = q @ [j]"
      using select_child_set [of "fst v" "snd v" t ns] by force
    from Cons.prems v(1) have "R (fst n) q" by auto
    with u v show ?thesis by (simp add: assms(2))
  qed
  show ?case
    using first rest cross
    by (simp add: select_child_Cons block_def [symmetric] sorted_wrt_append del: map_map)
qed

lemma select_attr_sorted:
  "sorted_wrt R (map fst result) \<Longrightarrow> sorted_wrt R (map fst (select_attr key v result))"
  by (simp add: select_attr_def sorted_wrt_map sorted_wrt_filter)

lemma branch_before_snoc: "i < j \<Longrightarrow> branch_before (p @ [i]) (p @ [j])"
  by (induction p) simp_all

lemma findall_strict_distinct: "distinct (map fst (findall_strict root))"
proof -
  define R1 where "R1 = (\<lambda>u v :: path. doc_before (butlast u) (butlast v) \<or>
      (butlast u = butlast v \<and> last u < last v))"
  define R2 where "R2 = (\<lambda>u v :: path. R1 (butlast u) (butlast v) \<or>
      (butlast u = butlast v \<and> last u < last v))"
  have "sorted_wrt doc_before
      (map fst (select_attr ''class'' ''anilist'' (select_descendant Tag_DIV [([], root)])))"
    by (intro select_attr_sorted select_descendant_root_sorted)
  then have "sorted_wrt R1 (map fst (select_child Tag_DIV
      (select_attr ''class'' ''anilist'' (select_descendant Tag_DIV [([], root)]))))"
    by (rule select_child_sorted) (simp_all add: R1_def)
  then have "sorted_wrt R1 (map fst (select_attr ''class'' ''characters'' (select_child Tag_DIV
      (select_attr ''class'' ''anilist'' (select_descendant Tag_DIV [([], root)])))))"
    by (rule select_attr_sorted)
  then have "sorted_wrt R2 (map fst (findall_strict root))"
    unfolding findall_strict_def by (rule select_child_sorted) (simp_all add: R2_def)
  moreover have "\<not> R2 u u" for u
    by (simp add: R2_def R1_def doc_before_irrefl)
  ultimately show ?thesis
    by (rule sorted_wrt_irrefl_distinct)
qed

lemma findall_strict_sorted:
  assumes "\<forall>n\<in>set (iter root). \<forall>n'\<in>set (iter root).
      is_div_class ''anilist'' (snd n) \<and> is_div_class ''anilist'' (snd n') \<longrightarrow>
      \<not> strict_prefix (fst n) (fst n')"
  shows "sorted_wrt doc_before (map fst (findall_strict root))"
proof -
  define A where "A = select_attr ''class'' ''anilist'' (select_descendant Tag_DIV [([], root)])"
  have "sorted_wrt doc_before (map fst A)"
    unfolding A_def by (intro select_attr_sorted select_descendant_root_sorted)
  then have "sorted_wrt (\<lambda>n n'. doc_before (fst n) (fst n')) A"
    by (simp only: sorted_wrt_map)
  moreover have "branch_before (fst n) (fst n')"
    if "n \<in> set A" "n' \<in> set A" "doc_before (fst n) (fst n')" for n n'
  proof -
    from that(1,2) have "at root (fst n) = Some (snd n)" "is_div_class ''anilist'' (snd n)"
      "at root (fst n') = Some (snd n')" "is_div_class ''anilist'' (snd n')"
      using anilist_divs_set [of "fst n" "snd n" root] anilist_divs_set [of "fst n'" "snd n'" root]
      by (simp_all add: A_def)
    then have "n \<in> set (iter root)" "is_div_class ''anilist'' (snd n)"
      "n' \<in> set (iter root)" "is_div_class ''anilist'' (snd n')"
      using iter_at [of "fst n" "snd n" root] iter_at [of "fst n'" "snd n'" root]
      by simp_all
    with assms have "\<not> strict_prefix (fst n) (fst n')" by force
    with doc_before_cases [OF that(3)] show ?thesis by blast
  qed
  ultimately have "sorted_wrt (\<lambda>n n'. branch_before (fst n) (fst n')) A"
    by (rule sorted_wrt_mono_rel [rotated])
  then have "sorted_wrt branch_before (map fst A)"
    by (simp only: sorted_wrt_map)
  then have "sorted_wrt branch_before (map fst (select_child Tag_DIV A))"
    by (rule select_child_sorted) (simp_all add: branch_before_append branch_before_snoc)
  then have "sorted_wrt branch_before
      (map fst (select_attr ''class'' ''characters'' (select_child Tag_DIV A)))"
    by (rule select_attr_sorted)
  then have "sorted_wrt branch_before (map fst (findall_strict root))"
    unfolding findall_strict_def A_def [symmetric]
    by (rule select_child_sorted) (simp_all add: branch_before_append branch_before_snoc)
  then show ?thesis
    by (rule sorted_wrt_mono_rel [rotated]) (rule branch_before_doc_before)
qed

text \<open>
  Claim C2, amended. The strict query yields exactly the XHTML \<^verbatim>\<open>img\<close> elements, with or
  without a \<^verbatim>\<open>src\<close> attribute, that are children of an XHTML div of class \<^verbatim>\<open>characters\<close>
  which is itself a child of an XHTML div of class \<^verbatim>\<open>anilist\<close> below the root; it yields
  each of them once; and it yields them in document order when no anilist div lies inside
  another one.
\<close>

theorem findall_strict_exact:
  "((p, e) \<in> set (findall_strict root) \<longleftrightarrow>
     (\<exists>a i j d c. a \<noteq> [] \<and> p = a @ [i, j] \<and>
        at root a = Some d \<and> is_div_class ''anilist'' d \<and>
        at root (a @ [i]) = Some c \<and> is_div_class ''characters'' c \<and>
        at root p = Some e \<and> tag e = Tag_IMG))
   \<and> distinct (map fst (findall_strict root))
   \<and> ((\<forall>n\<in>set (iter root). \<forall>n'\<in>set (iter root).
          is_div_class ''anilist'' (snd n) \<and> is_div_class ''anilist'' (snd n') \<longrightarrow>
          \<not> strict_prefix (fst n) (fst n')) \<longrightarrow>
       sorted_wrt doc_before (map fst (findall_strict root)))"
  using findall_strict_set [of p e root] findall_strict_distinct [of root]
    findall_strict_sorted [of root]
  by blast

text \<open>
  Claim C2 as stated fails where the \<^verbatim>\<open>characters\<close> div is nested more deeply: in
  \<open>deep_doc\<close> an \<^verbatim>\<open>img\<close> with a \<^verbatim>\<open>src\<close> is a child of a \<^verbatim>\<open>characters\<close> div that lies inside
  an \<^verbatim>\<open>anilist\<close> div, with a \<^verbatim>\<open>section\<close> in between, and the strict query yields nothing.
\<close>

theorem findall_strict_exact_counterexample:
  "at deep_doc [0] = Some (div_class ''anilist''
       [Element Tag_SECTION [] None None [div_class ''characters'' [img_src uri_A]]])
   \<and> at deep_doc [0, 0, 0] = Some (div_class ''characters'' [img_src uri_A])
   \<and> at deep_doc [0, 0, 0, 0] = Some (img_src uri_A)
   \<and> tag (img_src uri_A) = Tag_IMG \<and> get (img_src uri_A) ''src'' = Some uri_A
   \<and> findall_strict deep_doc = []"
  by code_simp

theorem findall_strict_exact_witness:
  "findall_strict cap_doc
     = [([0, 0, 0], img_src uri_A), ([0, 0, 1], img_src uri_bad), ([0, 0, 2], img_src uri_B)]
   \<and> sorted_wrt doc_before (map fst (findall_strict cap_doc))
   \<and> distinct (map fst (findall_strict cap_doc))
   \<and> (\<exists>a i j d c. a \<noteq> [] \<and> [0, 0, 1] = a @ [i, j] \<and>
        at cap_doc a = Some d \<and> is_div_class ''anilist'' d \<and>
        at cap_doc (a @ [i]) = Some c \<and> is_div_class ''characters'' c \<and>
        at cap_doc [0, 0, 1] = Some (img_src uri_bad) \<and> tag (img_src uri_bad) = Tag_IMG)"
proof -
  have h: "\<forall>n\<in>set (iter cap_doc). \<forall>n'\<in>set (iter cap_doc).
          is_div_class ''anilist'' (snd n) \<and> is_div_class ''anilist'' (snd n') \<longrightarrow>
          \<not> strict_prefix (fst n) (fst n')"
    by code_simp
  have r: "findall_strict cap_doc
       = [([0, 0, 0], img_src uri_A), ([0, 0, 1], img_src uri_bad), ([0, 0, 2], img_src uri_B)]"
    by code_simp
  note t = findall_strict_exact [where root = cap_doc and p = "[0, 0, 1]" and e = "img_src uri_bad"]
  from t h have s: "sorted_wrt doc_before (map fst (findall_strict cap_doc))"
    by (elim conjE) (rule mp)
  from t have d: "distinct (map fst (findall_strict cap_doc))"
    by (elim conjE)
  have "([0, 0, 1], img_src uri_bad) \<in> set (findall_strict cap_doc)"
    by (simp only: r) simp
  with t have e: "\<exists>a i j d c. a \<noteq> [] \<and> [0, 0, 1] = a @ [i, j] \<and>
        at cap_doc a = Some d \<and> is_div_class ''anilist'' d \<and>
        at cap_doc (a @ [i]) = Some c \<and> is_div_class ''characters'' c \<and>
        at cap_doc [0, 0, 1] = Some (img_src uri_bad) \<and> tag (img_src uri_bad) = Tag_IMG"
    by (elim conjE) (rule iffD1)
  from r s d e show ?thesis
    by (intro conjI)
qed

subsection \<open>The frame of an injection\<close>

lemma set_children_simps [simp]:
  "children (set_children cs e) = cs" "tag (set_children cs e) = tag e"
  "attrib (set_children cs e) = attrib e" "etext (set_children cs e) = etext e"
  "etail (set_children cs e) = etail e"
  by (simp_all add: set_children_def)

lemma set_children_twice [simp]: "set_children cs' (set_children cs e) = set_children cs' e"
  by (simp add: set_children_def)

lemma at_update_at_prefix:
  "at (update_at (q @ r) f e) q = map_option (update_at r f) (at e q)"
  by (induction q arbitrary: e) simp_all

lemma at_update_at_same: "at (update_at p f e) p = map_option f (at e p)"
  using at_update_at_prefix [of p "[]" f e] by (cases "at e p") simp_all

lemma at_update_at_other:
  "\<not> prefix p q \<Longrightarrow> \<not> prefix q p \<Longrightarrow> at (update_at p f e) q = at e q"
proof (induction p arbitrary: e q)
  case Nil
  then show ?case by simp
next
  case (Cons i p)
  from Cons.prems obtain j q' where q: "q = j # q'" by (cases q) auto
  show ?case
  proof (cases "i = j")
    case True
    with Cons.prems q have "\<not> prefix p q'" "\<not> prefix q' p" by simp_all
    with Cons.IH True q show ?thesis by simp
  next
    case False
    with q show ?thesis by simp
  qed
qed

lemma update_at_twice: "update_at p g (update_at p f e) = update_at p (\<lambda>x. g (f x)) e"
  by (induction p arbitrary: e) simp_all

lemma update_at_step_label:
  "tag (update_at (i # r) f d) = tag d" "attrib (update_at (i # r) f d) = attrib d"
  "etext (update_at (i # r) f d) = etext d" "etail (update_at (i # r) f d) = etail d"
  "length (children (update_at (i # r) f d)) = length (children d)"
  by simp_all

lemma children_fold_append_child:
  "children (fold append_child xs e) = children e @ xs"
  by (induction xs arbitrary: e) (simp_all add: append_child_def)

lemma label_fold_append_child:
  "tag (fold append_child xs e) = tag e" "attrib (fold append_child xs e) = attrib e"
  "etext (fold append_child xs e) = etext e" "etail (fold append_child xs e) = etail e"
  by (induction xs arbitrary: e) (simp_all add: append_child_def)

lemma fill_simps:
  "tag (fill fragment fo) = tag fo" "etext (fill fragment fo) = etext fo"
  "etail (fill fragment fo) = etail fo" "children (fill fragment fo) = children fo @ fragment"
  by (simp_all add: fill_def children_fold_append_child label_fold_append_child set_attr_def)

lemma fill_get:
  "get (fill fragment fo) key =
     (if key = ''height'' then Some ''100%'' else if key = ''width'' then Some ''100%''
      else if key = ''y'' then Some ''0'' else if key = ''x'' then Some ''0''
      else get fo key)"
  by (simp add: fill_def get_def label_fold_append_child set_attr_def AList.update_conv')

lemma clear_loop_subset: "set (clear_loop i cs) \<subseteq> set cs"
proof (induction i cs rule: clear_loop.induct)
  case (1 i cs)
  show ?case
  proof (cases "i < length cs")
    case True
    then have "set (clear_loop (Suc i) (take i cs @ drop (Suc i) cs))
        \<subseteq> set (take i cs @ drop (Suc i) cs)"
      using "1.IH" by simp
    also have "\<dots> \<subseteq> set cs"
      using set_take_subset [of i cs] set_drop_subset [of "Suc i" cs] by auto
    finally show ?thesis
      using True by (subst clear_loop.simps) simp
  next
    case False
    then show ?thesis by (subst clear_loop.simps) simp
  qed
qed

lemma find_object_result:
  assumes "find_object root merge = Inr (p, root')"
  shows "insertion_point root p"
    and "root' = (if merge then root
                  else update_at p (\<lambda>t. set_children (clear_loop 0 (children t)) t) root)"
proof -
  define fos where "fos = findall_foreign_object root"
  define P where "P = (\<lambda>obj :: node. has_anilist (snd obj))"
  from assms have ne: "fos \<noteq> []"
    by (auto simp: find_object_def fos_def Let_def split: if_splits)
  have sub: "hd (filter Q fos) \<in> set fos" if "filter Q fos \<noteq> []" for Q
    using hd_in_set [OF that] by simp
  from assms ne have "p = fst (hd fos) \<or> (filter P fos \<noteq> [] \<and> p = fst (hd (filter P fos)))
      \<or> (filter (\<lambda>obj. \<not> P obj) fos \<noteq> [] \<and> p = fst (hd (filter (\<lambda>obj. \<not> P obj) fos)))"
    by (auto simp: find_object_def fos_def [symmetric] P_def Let_def split: if_splits)
  then have "p \<in> fst ` set fos"
    using ne sub by (auto intro: imageI)
  then show "insertion_point root p"
    by (auto simp: insertion_point_iff fos_def)
  from assms ne show "root' = (if merge then root
                  else update_at p (\<lambda>t. set_children (clear_loop 0 (children t)) t) root)"
    by (auto simp: find_object_def fos_def [symmetric] Let_def split: if_splits)
qed

lemma inject_result:
  assumes "fst (inject target source m w h merge) = Inr target'"
  shows "\<exists>p uris. insertion_point target p \<and> fst (extract_uris_data source m) = Inr uris \<and>
           target' = update_at p
             (\<lambda>t. fill (build_anilist_section uris w h)
                    (if merge then t else set_children (clear_loop 0 (children t)) t))
             target"
proof -
  from assms obtain uris ws where ex: "extract_uris_data source m = (Inr uris, ws)"
    by (cases "extract_uris_data source m")
       (auto simp: inject_def split: sum.splits prod.splits)
  with assms obtain p t1 where fo: "find_object target merge = Inr (p, t1)"
    and t': "target' = update_at p (fill (build_anilist_section uris w h)) t1"
    by (auto simp: inject_def split: sum.splits prod.splits)
  note r = find_object_result [OF fo]
  have "target' = update_at p
             (\<lambda>t. fill (build_anilist_section uris w h)
                    (if merge then t else set_children (clear_loop 0 (children t)) t))
             target"
    using t' r(2) by (cases merge) (simp_all add: update_at_twice)
  with r(1) ex show ?thesis by auto
qed

text \<open>
  Claim C8. A run of \<^verbatim>\<open>inject\<close> that reaches the write changes the target tree at one
  \<^verbatim>\<open>foreignObject\<close> below the root and nowhere else. Every subtree beside the path to that
  element is as before; every element above it keeps its tag, attributes, text, tail and
  number of children; the element itself keeps its tag, text and tail, has the four
  geometry attributes set and its other attributes as before, and its children are the
  old ones (with \<^verbatim>\<open>merge\<close>) or those that the clearing loop leaves, followed by the
  fragment built from the extracted URIs.
\<close>

theorem inject_frame:
  assumes "fst (inject target source m w h merge) = Inr target'"
  shows "\<exists>p fo fo' uris.
       insertion_point target p \<and> at target p = Some fo \<and> at target' p = Some fo' \<and>
       (\<forall>q. \<not> prefix p q \<and> \<not> prefix q p \<longrightarrow> at target' q = at target q) \<and>
       (\<forall>q. strict_prefix q p \<longrightarrow>
          (\<exists>e e'. at target q = Some e \<and> at target' q = Some e' \<and> tag e' = tag e \<and>
             attrib e' = attrib e \<and> etext e' = etext e \<and> etail e' = etail e \<and>
             length (children e') = length (children e))) \<and>
       tag fo' = tag fo \<and> etext fo' = etext fo \<and> etail fo' = etail fo \<and>
       get fo' ''x'' = Some ''0'' \<and> get fo' ''y'' = Some ''0'' \<and>
       get fo' ''width'' = Some ''100%'' \<and> get fo' ''height'' = Some ''100%'' \<and>
       (\<forall>key. key \<notin> {''x'', ''y'', ''width'', ''height''} \<longrightarrow> get fo' key = get fo key) \<and>
       children fo' = (if merge then children fo else clear_loop 0 (children fo))
                      @ build_anilist_section uris w h \<and>
       set (clear_loop 0 (children fo)) \<subseteq> set (children fo) \<and>
       fst (extract_uris_data source m) = Inr uris"
proof -
  from inject_result [OF assms] obtain p uris where ip: "insertion_point target p"
    and ex: "fst (extract_uris_data source m) = Inr uris"
    and t': "target' = update_at p
             (\<lambda>t. fill (build_anilist_section uris w h)
                    (if merge then t else set_children (clear_loop 0 (children t)) t))
             target"
    by blast
  define F where "F = (\<lambda>t. fill (build_anilist_section uris w h)
                    (if merge then t else set_children (clear_loop 0 (children t)) t))"
  from ip obtain fo where fo: "at target p = Some fo"
    by (auto simp: insertion_point_def split: option.splits)
  have new: "at target' p = Some (F fo)"
    using fo by (simp add: t' F_def [symmetric] at_update_at_same)
  have other: "at target' q = at target q" if "\<not> prefix p q \<and> \<not> prefix q p" for q
    using that by (simp add: t' at_update_at_other)
  have above: "\<exists>e e'. at target q = Some e \<and> at target' q = Some e' \<and> tag e' = tag e \<and>
             attrib e' = attrib e \<and> etext e' = etext e \<and> etail e' = etail e \<and>
             length (children e') = length (children e)" if "strict_prefix q p" for q
  proof -
    from that obtain i r where p: "p = q @ i # r"
      by (auto simp: strict_prefix_def prefix_def) (metis list.exhaust append_Nil2)
    with fo obtain e where e: "at target q = Some e"
      by (auto simp: at_append split: option.splits)
    then have "at target' q = Some (update_at (i # r) F e)"
      by (simp add: t' F_def [symmetric] p at_update_at_prefix)
    with e show ?thesis
      by (simp add: update_at_step_label del: update_at.simps)
  qed
  have kids: "children (F fo) = (if merge then children fo else clear_loop 0 (children fo))
                      @ build_anilist_section uris w h"
    by (simp add: F_def fill_simps)
  have label: "tag (F fo) = tag fo" "etext (F fo) = etext fo" "etail (F fo) = etail fo"
    by (simp_all add: F_def fill_simps)
  have geo: "get (F fo) ''x'' = Some ''0''" "get (F fo) ''y'' = Some ''0''"
    "get (F fo) ''width'' = Some ''100%''" "get (F fo) ''height'' = Some ''100%''"
    by (simp_all add: F_def fill_get)
  have attrs: "get (F fo) key = get fo key" if "key \<notin> {''x'', ''y'', ''width'', ''height''}" for key
  proof -
    have "get (set_children cs fo) key = get fo key" for cs
      by (simp add: get_def)
    with that show ?thesis
      by (simp add: F_def fill_get)
  qed
  have frame: "\<forall>q. \<not> prefix p q \<and> \<not> prefix q p \<longrightarrow> at target' q = at target q"
    using other by blast
  have anc: "\<forall>q. strict_prefix q p \<longrightarrow>
          (\<exists>e e'. at target q = Some e \<and> at target' q = Some e' \<and> tag e' = tag e \<and>
             attrib e' = attrib e \<and> etext e' = etext e \<and> etail e' = etail e \<and>
             length (children e') = length (children e))"
    using above by blast
  have rest: "\<forall>key. key \<notin> {''x'', ''y'', ''width'', ''height''} \<longrightarrow> get (F fo) key = get fo key"
    using attrs by blast
  note sub = clear_loop_subset [of 0 "children fo"]
  show ?thesis
    by (intro exI [of _ p] exI [of _ fo] exI [of _ "F fo"] exI [of _ uris] conjI)
       (fact ip fo new frame anc label geo rest kids sub ex)+
qed

theorem inject_frame_witness:
  "fst (inject merge_doc cap_doc None 36 54 False) = Inr injected_doc
   \<and> (\<exists>p fo'. insertion_point merge_doc p \<and> at injected_doc p = Some fo' \<and>
         get fo' ''width'' = Some ''100%'' \<and>
         (\<forall>q. \<not> prefix p q \<and> \<not> prefix q p \<longrightarrow> at injected_doc q = at merge_doc q))"
proof -
  have r: "fst (inject merge_doc cap_doc None 36 54 False) = Inr injected_doc"
    by code_simp
  from inject_frame [OF r] obtain p fo' where
    "insertion_point merge_doc p" "at injected_doc p = Some fo'"
    "get fo' ''width'' = Some ''100%''"
    "\<forall>q. \<not> prefix p q \<and> \<not> prefix q p \<longrightarrow> at injected_doc q = at merge_doc q"
    by (elim exE conjE)
  with r show ?thesis
    by (intro conjI exI [of _ p] exI [of _ fo'])
qed

subsection \<open>One warning for each rejected candidate\<close>

lemma evaluated_map:
  "evaluated rd m (map f xs) us = map f (evaluated (\<lambda>x. rd (f x)) m xs us)"
  by (induction xs arbitrary: us) (simp_all add: Let_def)

lemma evaluated_subset: "set (evaluated rd m xs us) \<subseteq> set xs"
  by (induction xs arbitrary: us) (auto simp: Let_def)

lemma evaluated_distinct:
  "distinct (map g xs) \<Longrightarrow> distinct (map g (evaluated rd m xs us))"
proof (induction xs arbitrary: us)
  case Nil
  then show ?case by simp
next
  case (Cons x xs)
  have "g x \<notin> g ` set (evaluated rd m xs us')" for us'
    using Cons.prems evaluated_subset [of rd m xs us'] by auto
  with Cons show ?case
    by (simp add: Let_def)
qed

lemma doc_before_append_same: "doc_before (p @ q) (p @ q') = doc_before q q'"
  by (induction p) simp_all

lemma select_descendant_Nil: "select_descendant t [] = []"
  by (simp add: select_descendant_def)

lemma select_descendant_Cons:
  "select_descendant t (n # ns) =
     map (\<lambda>c. (fst n @ fst c, snd c))
       (filter (\<lambda>c. tag (snd c) = t \<and> fst c \<noteq> []) (iter (snd n)))
     @ select_descendant t ns"
  by (simp add: select_descendant_alt)

lemma select_descendant_sorted:
  assumes "sorted_wrt branch_before (map fst result)"
  shows "sorted_wrt doc_before (map fst (select_descendant t result))"
  using assms
proof (induction result)
  case Nil
  then show ?case by (simp add: select_descendant_Nil)
next
  case (Cons n ns)
  define block where "block = map (\<lambda>c. (fst n @ fst c, snd c))
      (filter (\<lambda>c. tag (snd c) = t \<and> fst c \<noteq> []) (iter (snd n)))"
  have "sorted_wrt (\<lambda>c c'. doc_before (fst c) (fst c')) (iter (snd n))"
    using iter_sorted [of "snd n"] by (simp only: sorted_wrt_map)
  then have "sorted_wrt (\<lambda>c c'. doc_before (fst c) (fst c'))
      (filter (\<lambda>c. tag (snd c) = t \<and> fst c \<noteq> []) (iter (snd n)))"
    by (rule sorted_wrt_filter)
  then have first: "sorted_wrt doc_before (map fst block)"
    by (simp add: block_def sorted_wrt_map doc_before_append_same)
  have rest: "sorted_wrt doc_before (map fst (select_descendant t ns))"
    using Cons by simp
  have cross: "doc_before (fst u) (fst v)"
    if "u \<in> set block" "v \<in> set (select_descendant t ns)" for u v
  proof -
    from that(1) obtain q where u: "fst u = fst n @ q" by (auto simp: block_def)
    from that(2) obtain p' q' where v: "p' \<in> fst ` set ns" "fst v = p' @ q'"
      using select_descendant_set [of "fst v" "snd v" t ns] by force
    from Cons.prems v(1) have "branch_before (fst n) p'" by auto
    then have "branch_before (fst n @ q) (p' @ q')" by (rule branch_before_append)
    with u v show ?thesis by (simp add: branch_before_doc_before)
  qed
  show ?case
    using first rest cross
    by (simp add: select_descendant_Cons block_def [symmetric] sorted_wrt_append del: map_map)
qed

lemma anilist_divs_branch_sorted:
  assumes "\<forall>n\<in>set (iter root). \<forall>n'\<in>set (iter root).
      is_div_class ''anilist'' (snd n) \<and> is_div_class ''anilist'' (snd n') \<longrightarrow>
      \<not> strict_prefix (fst n) (fst n')"
  shows "sorted_wrt branch_before
      (map fst (select_attr ''class'' ''anilist'' (select_descendant Tag_DIV [([], root)])))"
proof -
  define A where "A = select_attr ''class'' ''anilist'' (select_descendant Tag_DIV [([], root)])"
  have "sorted_wrt doc_before (map fst A)"
    unfolding A_def by (intro select_attr_sorted select_descendant_root_sorted)
  then have "sorted_wrt (\<lambda>n n'. doc_before (fst n) (fst n')) A"
    by (simp only: sorted_wrt_map)
  moreover have "branch_before (fst n) (fst n')"
    if "n \<in> set A" "n' \<in> set A" "doc_before (fst n) (fst n')" for n n'
  proof -
    from that(1,2) have "at root (fst n) = Some (snd n)" "is_div_class ''anilist'' (snd n)"
      "at root (fst n') = Some (snd n')" "is_div_class ''anilist'' (snd n')"
      using anilist_divs_set [of "fst n" "snd n" root] anilist_divs_set [of "fst n'" "snd n'" root]
      by (simp_all add: A_def)
    then have "n \<in> set (iter root)" "is_div_class ''anilist'' (snd n)"
      "n' \<in> set (iter root)" "is_div_class ''anilist'' (snd n')"
      using iter_at [of "fst n" "snd n" root] iter_at [of "fst n'" "snd n'" root]
      by simp_all
    with assms have "\<not> strict_prefix (fst n) (fst n')" by force
    with doc_before_cases [OF that(3)] show ?thesis by blast
  qed
  ultimately have "sorted_wrt (\<lambda>n n'. branch_before (fst n) (fst n')) A"
    by (rule sorted_wrt_mono_rel [rotated])
  then show ?thesis
    by (simp only: sorted_wrt_map A_def)
qed

lemma findall_relaxed_distinct:
  assumes "\<forall>n\<in>set (iter root). \<forall>n'\<in>set (iter root).
      is_div_class ''anilist'' (snd n) \<and> is_div_class ''anilist'' (snd n') \<longrightarrow>
      \<not> strict_prefix (fst n) (fst n')"
  shows "distinct (map fst (findall_relaxed root))"
proof -
  have "sorted_wrt doc_before (map fst (findall_relaxed root))"
    unfolding findall_relaxed_def
    by (rule select_descendant_sorted) (rule anilist_divs_branch_sorted [OF assms])
  then show ?thesis
    by (rule sorted_wrt_irrefl_distinct) (rule doc_before_irrefl)
qed

lemma findall_svg_image_distinct: "distinct (map fst (findall_svg_image root))"
  unfolding findall_svg_image_def
  by (rule sorted_wrt_irrefl_distinct [OF select_descendant_root_sorted]) (rule doc_before_irrefl)

lemma rejected_nodes:
  "map wk (filter (rejected rd) (evaluated rd m (map snd ns) us)) =
     map (\<lambda>n. wk (snd n)) (filter (\<lambda>n. rejected rd (snd n)) (evaluated (\<lambda>n. rd (snd n)) m ns us))"
  by (simp add: evaluated_map filter_map comp_def)

text \<open>
  Claim C6, amended. Take a source whose strict query yields a candidate, or in which no
  anilist div lies inside another, so that the query of tiers 1 and 2 lists every
  \<^verbatim>\<open>img\<close> once. The candidates that the loop over tiers 1 and 2 evaluates are pairwise
  different elements, and so are those that the fallback loop evaluates when that tier is
  consulted. The warnings of the run are, in order, one for each rejected element among the
  former and then one for each rejected element among the latter, each holding the first
  60 characters of the element's value. Every URI returned is a data URI, so no rejected
  value is. Without a cap every candidate of a consulted tier is evaluated.
\<close>

theorem rejected_candidates_warned:
  assumes "findall_strict root \<noteq> [] \<or>
      (\<forall>n\<in>set (iter root). \<forall>n'\<in>set (iter root).
         is_div_class ''anilist'' (snd n) \<and> is_div_class ''anilist'' (snd n') \<longrightarrow>
         \<not> strict_prefix (fst n) (fst n'))"
  shows "(let c = (if findall_strict root = [] then findall_relaxed root
                   else findall_strict root);
              s = scan_loop src_of Non_data_URI_ignored m (map snd c) ([], []);
              e12 = evaluated (\<lambda>n. src_of (snd n)) m c [];
              e3 = (if \<not> fst s \<and> fst (snd s) = []
                    then evaluated (\<lambda>n. href_of (snd n)) m (findall_svg_image root) []
                    else [])
          in snd (extract_uris_data root m) =
               map (\<lambda>n. Non_data_URI_ignored (take 60 (the (src_of (snd n)))))
                 (filter (\<lambda>n. rejected src_of (snd n)) e12)
               @ map (\<lambda>n. Non_data_URI_in_image_ignored (take 60 (the (href_of (snd n)))))
                   (filter (\<lambda>n. rejected href_of (snd n)) e3)
             \<and> distinct (map fst e12) \<and> distinct (map fst e3))
       \<and> (\<forall>us. fst (extract_uris_data root m) = Inr us \<longrightarrow> (\<forall>u\<in>set us. is_data_uri (Some u)))
       \<and> evaluated rd None es us0 = es"
proof -
  define c where "c = (if findall_strict root = [] then findall_relaxed root
                   else findall_strict root)"
  define s where "s = scan_loop src_of Non_data_URI_ignored m (map snd c) ([], [])"
  define e12 where "e12 = evaluated (\<lambda>n. src_of (snd n)) m c []"
  define e3 where "e3 = (if \<not> fst s \<and> fst (snd s) = []
                    then evaluated (\<lambda>n. href_of (snd n)) m (findall_svg_image root) []
                    else [])"
  have cs: "(if map snd (findall_strict root) = [] then map snd (findall_relaxed root)
             else map snd (findall_strict root)) = map snd c"
    by (simp add: c_def)
  have "snd (extract_uris_data root m) =
      map (\<lambda>e. Non_data_URI_ignored (take 60 (the (src_of e))))
           (filter (rejected src_of) (evaluated src_of m (map snd c) []))
         @ (if \<not> fst s \<and> fst (snd s) = []
            then map (\<lambda>e. Non_data_URI_in_image_ignored (take 60 (the (href_of e))))
                   (filter (rejected href_of)
                     (evaluated href_of m (map snd (findall_svg_image root)) []))
            else [])"
    unfolding extract_uris_data_def extract_from_warnings cs s_def by (simp add: Let_def)
  then have warn: "snd (extract_uris_data root m) =
               map (\<lambda>n. Non_data_URI_ignored (take 60 (the (src_of (snd n)))))
                 (filter (\<lambda>n. rejected src_of (snd n)) e12)
               @ map (\<lambda>n. Non_data_URI_in_image_ignored (take 60 (the (href_of (snd n)))))
                   (filter (\<lambda>n. rejected href_of (snd n)) e3)"
    by (simp only: rejected_nodes e12_def e3_def) simp
  have "distinct (map fst c)"
  proof (cases "findall_strict root = []")
    case True
    with assms have "distinct (map fst (findall_relaxed root))"
      by (intro findall_relaxed_distinct) simp
    with True show ?thesis by (simp add: c_def)
  next
    case False
    then show ?thesis by (simp add: c_def findall_strict_distinct)
  qed
  then have d12: "distinct (map fst e12)"
    unfolding e12_def by (rule evaluated_distinct)
  have d3: "distinct (map fst e3)"
    using evaluated_distinct [OF findall_svg_image_distinct, of "\<lambda>n. href_of (snd n)" m root "[]"]
    by (simp add: e3_def)
  have uris: "\<forall>us. fst (extract_uris_data root m) = Inr us \<longrightarrow> (\<forall>u\<in>set us. is_data_uri (Some u))"
    unfolding extract_uris_data_def using extract_from_data_uris by blast
  from warn d12 d3 uris show ?thesis
    unfolding Let_def c_def [symmetric] s_def [symmetric] e12_def [symmetric] e3_def [symmetric]
    by (simp add: evaluated_None)
qed

text \<open>
  Claim C6 as stated fails for a candidate behind the cap: the second strict candidate of
  \<open>cap_doc\<close> has a value that is present and is no data URI, yet with \<^verbatim>\<open>max_images=1\<close>
  the run prints no warning.
\<close>

theorem rejected_candidates_warned_counterexample:
  "map (\<lambda>n. src_of (snd n)) (findall_strict cap_doc) = [Some uri_A, Some uri_bad, Some uri_B]
   \<and> uri_bad \<noteq> [] \<and> \<not> is_data_uri (Some uri_bad)
   \<and> extract_uris_data cap_doc (Some 1) = (Inr [uri_A], [])"
  by code_simp

theorem rejected_candidates_warned_witness:
  "extract_uris_data cap_doc None =
     (Inr [uri_A, uri_B],
      [Non_data_URI_ignored ''http://example.org/characters/0123456789/0123456789/01234567''])
   \<and> evaluated (\<lambda>n. src_of (snd n)) None (findall_strict cap_doc) []
       = [([0, 0, 0], img_src uri_A), ([0, 0, 1], img_src uri_bad), ([0, 0, 2], img_src uri_B)]
   \<and> rejected src_of (img_src uri_bad)
   \<and> \<not> rejected src_of (img_src uri_A) \<and> \<not> rejected src_of (img_src uri_B)
   \<and> is_data_uri (Some uri_A) \<and> is_data_uri (Some uri_B)"
proof -
  have h: "\<forall>n\<in>set (iter cap_doc). \<forall>n'\<in>set (iter cap_doc).
          is_div_class ''anilist'' (snd n) \<and> is_div_class ''anilist'' (snd n') \<longrightarrow>
          \<not> strict_prefix (fst n) (fst n')"
    by code_simp
  have e: "extract_uris_data cap_doc None =
     (Inr [uri_A, uri_B],
      [Non_data_URI_ignored ''http://example.org/characters/0123456789/0123456789/01234567''])"
    by code_simp
  have v: "evaluated (\<lambda>n. src_of (snd n)) None (findall_strict cap_doc) []
       = [([0, 0, 0], img_src uri_A), ([0, 0, 1], img_src uri_bad), ([0, 0, 2], img_src uri_B)]"
    by code_simp
  have j: "rejected src_of (img_src uri_bad)"
    "\<not> rejected src_of (img_src uri_A)" "\<not> rejected src_of (img_src uri_B)"
    by code_simp+
  note t = rejected_candidates_warned [where root = cap_doc and m = None, OF disjI2 [OF h]]
  have "\<forall>us. fst (extract_uris_data cap_doc None) = Inr us \<longrightarrow>
      (\<forall>u\<in>set us. is_data_uri (Some u))"
    by (rule t [THEN conjunct2, THEN conjunct1])
  with e have "is_data_uri (Some uri_A)" "is_data_uri (Some uri_B)"
    by simp_all
  with e v j show ?thesis
    by (intro conjI)
qed

end
